theory Spec2Isabelle
  imports Complex_Main "HOL-Library.Word" "HOL-Library.Monad_Syntax"
begin

section \<open>The numeric foundation of quadrature.hpp\<close>

text \<open>
  \<^verbatim>\<open>Real\<close> is \<^verbatim>\<open>std::float128_t\<close> where the compiler has it and \<^verbatim>\<open>long double\<close>
  otherwise (quadrature.hpp, lines 29-34).  A value of either type is a finite number, one
  of the two infinities, or a NaN, and zero has a sign.  \<open>Finite q\<close> is the finite value
  \<open>q\<close>, with \<open>Finite 0\<close> for \<^verbatim>\<open>+0.0\<close>; \<open>NZero\<close> is \<^verbatim>\<open>-0.0\<close>.  The special values and the
  signs of zero follow IEEE 754 in its default rounding to nearest.  There is one NaN, so
  two NaN results are equal here, while \<^verbatim>\<open>==\<close> of C++ is false between them.
\<close>

datatype Real = Finite rat | NZero | PInf | NInf | NaN

text \<open>
  What depends on the platform's choice of \<^verbatim>\<open>Real\<close> is a parameter: the rounding of an
  exact non-zero result into the format (which may overflow to an infinity),
  \<^verbatim>\<open>std::numeric_limits<Real>::epsilon()\<close> and \<^verbatim>\<open>std::sqrt\<close>.  Every operation rounds its
  exact result once; an exact result of zero is not rounded, it is a zero with the sign
  that IEEE 754 gives it.  The integer literals of the code (2, 4, 5, 6, 15, 77, 432, 512,
  625, 672, 1470) convert to \<^verbatim>\<open>Real\<close> exactly.
\<close>

record format =
  rnd :: "rat \<Rightarrow> Real"
  numeric_epsilon :: Real
  sqrt_op :: "Real \<Rightarrow> Real"

fun isfinite :: "Real \<Rightarrow> bool" where
  "isfinite (Finite q) = True"
| "isfinite NZero = True"
| "isfinite PInf = False"
| "isfinite NInf = False"
| "isfinite NaN = False"

text \<open>The sign bit (\<^verbatim>\<open>std::signbit\<close>) and the numeric value of a finite number.\<close>

fun signbit :: "Real \<Rightarrow> bool" where
  "signbit (Finite q) = (q < 0)"
| "signbit NZero = True"
| "signbit PInf = False"
| "signbit NInf = True"
| "signbit NaN = False"

fun valof :: "Real \<Rightarrow> rat" where
  "valof (Finite q) = q"
| "valof NZero = 0"
| "valof PInf = 0"
| "valof NInf = 0"
| "valof NaN = 0"

definition zero :: "bool \<Rightarrow> Real" where
  "zero negative = (if negative then NZero else Finite 0)"

definition infinity :: "bool \<Rightarrow> Real" where
  "infinity negative = (if negative then NInf else PInf)"

fun fneg :: "Real \<Rightarrow> Real" where
  "fneg (Finite q) = (if q = 0 then NZero else Finite (- q))"
| "fneg NZero = Finite 0"
| "fneg PInf = NInf"
| "fneg NInf = PInf"
| "fneg NaN = NaN"

fun fabs :: "Real \<Rightarrow> Real" where
  "fabs (Finite q) = Finite \<bar>q\<bar>"
| "fabs NZero = Finite 0"
| "fabs PInf = PInf"
| "fabs NInf = PInf"
| "fabs NaN = NaN"

text \<open>
  The comparison \<^verbatim>\<open><\<close>: false whenever an operand is NaN; the two zeros compare
  equal.
\<close>

fun flt :: "Real \<Rightarrow> Real \<Rightarrow> bool" where
  "flt NaN _ = False"
| "flt _ NaN = False"
| "flt PInf _ = False"
| "flt _ NInf = False"
| "flt NInf _ = True"
| "flt _ PInf = True"
| "flt u v = (valof u < valof v)"

text \<open>
  The two zeros compare equal under \<^verbatim>\<open><\<close> and \<^verbatim>\<open>==\<close> and are different values.
\<close>

definition opposite_zeros :: "Real \<Rightarrow> Real \<Rightarrow> bool" where
  "opposite_zeros u v \<longleftrightarrow> u = Finite 0 \<and> v = NZero \<or> u = NZero \<and> v = Finite 0"

text \<open>
  Addition: an exact sum of zero is \<^verbatim>\<open>+0.0\<close>, except that \<^verbatim>\<open>-0.0 + -0.0\<close> is \<^verbatim>\<open>-0.0\<close>.
\<close>

fun fadd :: "format \<Rightarrow> Real \<Rightarrow> Real \<Rightarrow> Real" where
  "fadd fmt NaN _ = NaN"
| "fadd fmt _ NaN = NaN"
| "fadd fmt PInf NInf = NaN"
| "fadd fmt NInf PInf = NaN"
| "fadd fmt PInf _ = PInf"
| "fadd fmt _ PInf = PInf"
| "fadd fmt NInf _ = NInf"
| "fadd fmt _ NInf = NInf"
| "fadd fmt NZero NZero = NZero"
| "fadd fmt u v =
     (if valof u + valof v = 0 then Finite 0 else rnd fmt (valof u + valof v))"

text \<open>Subtraction is the addition of the negated operand.\<close>

definition fsub :: "format \<Rightarrow> Real \<Rightarrow> Real \<Rightarrow> Real" where
  "fsub fmt u v = fadd fmt u (fneg v)"

text \<open>
  Multiplication and division: the sign of a zero or an infinity is the exclusive or of
  the operands' signs; infinity times zero, zero by zero and infinity by infinity are NaN.
\<close>

fun fmul :: "format \<Rightarrow> Real \<Rightarrow> Real \<Rightarrow> Real" where
  "fmul fmt NaN _ = NaN"
| "fmul fmt _ NaN = NaN"
| "fmul fmt PInf v = (if isfinite v \<and> valof v = 0 then NaN else infinity (signbit v))"
| "fmul fmt NInf v = (if isfinite v \<and> valof v = 0 then NaN else infinity (\<not> signbit v))"
| "fmul fmt u PInf = (if valof u = 0 then NaN else infinity (signbit u))"
| "fmul fmt u NInf = (if valof u = 0 then NaN else infinity (\<not> signbit u))"
| "fmul fmt u v =
     (if valof u * valof v = 0 then zero (signbit u \<noteq> signbit v)
      else rnd fmt (valof u * valof v))"

fun fdiv :: "format \<Rightarrow> Real \<Rightarrow> Real \<Rightarrow> Real" where
  "fdiv fmt NaN _ = NaN"
| "fdiv fmt _ NaN = NaN"
| "fdiv fmt PInf PInf = NaN"
| "fdiv fmt PInf NInf = NaN"
| "fdiv fmt NInf PInf = NaN"
| "fdiv fmt NInf NInf = NaN"
| "fdiv fmt PInf v = infinity (signbit v)"
| "fdiv fmt NInf v = infinity (\<not> signbit v)"
| "fdiv fmt u PInf = zero (signbit u)"
| "fdiv fmt u NInf = zero (\<not> signbit u)"
| "fdiv fmt u v =
     (if valof v = 0
      then (if valof u = 0 then NaN else infinity (signbit u \<noteq> signbit v))
      else if valof u = 0 then zero (signbit u \<noteq> signbit v)
      else rnd fmt (valof u / valof v))"

text \<open>\<^verbatim>\<open>std::max(u, v)\<close> is \<^verbatim>\<open>(u < v) ? v : u\<close>.\<close>

definition fmax :: "Real \<Rightarrow> Real \<Rightarrow> Real" where
  "fmax u v = (if flt u v then v else u)"

text \<open>
  \<^verbatim>\<open>numeric_interval\<close> is \<^verbatim>\<open>std::numeric_limits<double>::epsilon()\<close>, that is \<open>2\<^sup>-\<^sup>5\<^sup>2\<close>,
  converted to \<^verbatim>\<open>Real\<close> without loss.
\<close>

definition numeric_interval :: Real where
  "numeric_interval = Finite (1 / 2 ^ 52)"

section \<open>Properties a format may have\<close>

text \<open>A rational that the format holds exactly.\<close>

definition representable :: "format \<Rightarrow> rat \<Rightarrow> bool" where
  "representable fmt q \<longleftrightarrow> rnd fmt q = Finite q"

text \<open>
  A property of the platform's arithmetic: halving a value whose magnitude is below
  \<^verbatim>\<open>numeric_interval\<close> gives a value whose magnitude is below \<^verbatim>\<open>numeric_interval\<close>.  Binary
  floating point has it, a division by two being exact or rounded between zero and the
  operand.
\<close>

definition halving_contracts :: "format \<Rightarrow> bool" where
  "halving_contracts fmt \<longleftrightarrow>
     (\<forall>w. flt (fabs w) numeric_interval \<longrightarrow>
          flt (fabs (fdiv fmt w (Finite 2))) numeric_interval)"

section \<open>The log of a run\<close>

text \<open>
  The integrators return a number.  The model returns that number together with a log of
  what the run did, so that properties of an execution can be stated: \<open>Eval x\<close> records
  one call of the integrand at \<open>x\<close>, and \<open>Split s e d\<close> records that a recursion step
  on the interval from \<open>s\<close> to \<open>e\<close> went on to call itself on sub-intervals, passing
  them the depth \<open>d\<close>.  The operands of a C++ sum are evaluated in an unspecified order;
  the log lists the left operand first, and nothing below depends on the order.
\<close>

datatype event = Eval Real | Split Real Real "8 word"

type_synonym run = "Real \<times> event list"

definition evals :: "event list \<Rightarrow> Real list" where
  "evals tr = concat (map (\<lambda>ev. case ev of Eval u \<Rightarrow> [u] | Split s e d \<Rightarrow> []) tr)"

text \<open>The number of calls of the integrand in a run that returned.\<close>

definition evaluations :: "run option \<Rightarrow> nat option" where
  "evaluations res = map_option (\<lambda>r. length (evals (snd r))) res"

section \<open>Simpson\<close>

text \<open>The local \<^verbatim>\<open>struct Data\<close> of \<^verbatim>\<open>Lobatto\<close> has the fields \<^verbatim>\<open>x\<close> and \<^verbatim>\<open>y\<close>; that of
  \<^verbatim>\<open>Simpson\<close> has \<^verbatim>\<open>area\<close> as well.\<close>

record Data =
  x :: Real
  y :: Real

record Data_S = Data +
  area :: Real

text \<open>The lambda \<^verbatim>\<open>evaluate\<close> (lines 110-121): one call of the integrand, at the midpoint.\<close>

definition evaluate :: "format \<Rightarrow> (Real \<Rightarrow> Real) \<Rightarrow> Data_S \<Rightarrow> Data_S \<Rightarrow> Data_S" where
  "evaluate fmt function start end =
     (let mx = fdiv fmt (fadd fmt (x start) (x end)) (Finite 2);
          my = function mx
      in \<lparr> x = mx, y = my,
           area = fdiv fmt
             (fmul fmt (fabs (fsub fmt (x end) (x start)))
                (fadd fmt (fadd fmt (y start) (fmul fmt (Finite 4) my)) (y end)))
             (Finite 6) \<rparr>)"

text \<open>
  The lambda \<^verbatim>\<open>recursive\<close> (lines 123-165).  \<^verbatim>\<open>depth\<close> and the captured \<^verbatim>\<open>max_depth\<close>
  are \<^verbatim>\<open>uint8_t\<close>, and \<^verbatim>\<open>++depth\<close> wraps at 255.  In
  \<^verbatim>\<open>(std::abs(error) < epsilon) || (++depth > max_depth)\<close> the increment runs only when the
  first test fails.  The result \<open>None\<close> stands for a recursion that does not return; that
  the recursion returns from every call \<^verbatim>\<open>Simpson\<close> makes is proved below.
\<close>

partial_function (option) Simpson_recursive ::
  "format \<Rightarrow> 8 word \<Rightarrow> (Real \<Rightarrow> Real) \<Rightarrow> Data_S \<Rightarrow> Data_S \<Rightarrow> Data_S \<Rightarrow> Real \<Rightarrow> 8 word
     \<Rightarrow> run option" where
  "Simpson_recursive fmt max_depth function start middle end epsilon depth =
     (if flt epsilon (numeric_epsilon fmt)
         \<or> flt (fabs (fsub fmt (x end) (x start))) numeric_interval
      then Some (area middle, [])
      else
        let left = evaluate fmt function start middle;
            right = evaluate fmt function middle end
        in
          if \<not> isfinite (y left) \<or> \<not> isfinite (y right)
          then Some (NaN, [Eval (x left), Eval (x right)])
          else
            let error = fdiv fmt (fsub fmt (fadd fmt (area left) (area right)) (area middle))
                          (Finite 15)
            in
              if flt (fabs error) epsilon
              then Some (fadd fmt (fadd fmt (area left) (area right)) error,
                         [Eval (x left), Eval (x right)])
              else
                let depth' = depth + 1
                in
                  if depth' > max_depth
                  then Some (fadd fmt (fadd fmt (area left) (area right)) error,
                             [Eval (x left), Eval (x right)])
                  else
                    do {
                      l \<leftarrow> Simpson_recursive fmt max_depth function start left middle
                             (fdiv fmt epsilon (Finite 2)) depth';
                      r \<leftarrow> Simpson_recursive fmt max_depth function middle right end
                             (fdiv fmt epsilon (Finite 2)) depth';
                      Some (fadd fmt (fst l) (fst r),
                            [Eval (x left), Eval (x right),
                             Split (x start) (x end) depth'] @ snd l @ snd r)
                    })"

declare Simpson_recursive.simps [code]

text \<open>The function \<^verbatim>\<open>Quadrature::Simpson\<close> (lines 81-175).\<close>

definition Simpson ::
  "format \<Rightarrow> (Real \<Rightarrow> Real) \<Rightarrow> Real \<Rightarrow> Real \<Rightarrow> Real \<Rightarrow> 8 word \<Rightarrow> run option" where
  "Simpson fmt function a0 b0 a_epsilon a_max_depth =
     (let (a, b) = (if flt b0 a0 then (b0, a0) else (a0, b0));
          max_depth = min a_max_depth 22;
          epsilon = fmax a_epsilon (fmul fmt (Finite 512) (numeric_epsilon fmt));
          start = \<lparr> x = a, y = function a, area = Finite 0 \<rparr>;
          end = \<lparr> x = b, y = function b, area = Finite 0 \<rparr>;
          middle = evaluate fmt function start end
      in
        if \<not> isfinite (y start) \<or> \<not> isfinite (y end) \<or> \<not> isfinite (y middle)
        then Some (NaN, [Eval a, Eval b, Eval (x middle)])
        else
          do {
            r \<leftarrow> Simpson_recursive fmt max_depth function start middle end epsilon 0;
            Some (fst r, [Eval a, Eval b, Eval (x middle)] @ snd r)
          })"

section \<open>Lobatto\<close>

text \<open>The two \<^verbatim>\<open>static const\<close> nodes (lines 186-187).\<close>

definition node_lobatto :: "format \<Rightarrow> Real" where
  "node_lobatto fmt = sqrt_op fmt (fdiv fmt (Finite 1) (Finite 5))"

definition node_kronrod :: "format \<Rightarrow> Real" where
  "node_kronrod fmt = sqrt_op fmt (fdiv fmt (Finite 2) (Finite 3))"

text \<open>
  The lambda \<^verbatim>\<open>recursive\<close> (lines 207-254), which captures \<^verbatim>\<open>max_depth\<close>, \<^verbatim>\<open>epsilon\<close> and
  the nodes by reference.  \<^verbatim>\<open>++depth\<close> runs only when \<^verbatim>\<open>std::abs(h) < numeric_interval\<close> is
  false.  Again \<open>None\<close> stands for a recursion that does not return.
\<close>

partial_function (option) Lobatto_recursive ::
  "format \<Rightarrow> 8 word \<Rightarrow> Real \<Rightarrow> (Real \<Rightarrow> Real) \<Rightarrow> Data \<Rightarrow> Data \<Rightarrow> 8 word \<Rightarrow> run option" where
  "Lobatto_recursive fmt max_depth epsilon function start end depth =
     (let h = fdiv fmt (fsub fmt (x end) (x start)) (Finite 2);
          p4x = fdiv fmt (fadd fmt (x start) (x end)) (Finite 2);
          p2x = fsub fmt p4x (fmul fmt (node_kronrod fmt) h);
          p3x = fsub fmt p4x (fmul fmt (node_lobatto fmt) h);
          p5x = fadd fmt p4x (fmul fmt (node_lobatto fmt) h);
          p6x = fadd fmt p4x (fmul fmt (node_kronrod fmt) h);
          p2 = \<lparr> x = p2x, y = function p2x \<rparr>;
          p3 = \<lparr> x = p3x, y = function p3x \<rparr>;
          p4 = \<lparr> x = p4x, y = function p4x \<rparr>;
          p5 = \<lparr> x = p5x, y = function p5x \<rparr>;
          p6 = \<lparr> x = p6x, y = function p6x \<rparr>;
          area_kronrod = fmul fmt (fdiv fmt h (Finite 1470))
            (fadd fmt
              (fadd fmt
                (fadd fmt (fmul fmt (fadd fmt (y start) (y end)) (Finite 77))
                          (fmul fmt (fadd fmt (y p2) (y p6)) (Finite 432)))
                (fmul fmt (fadd fmt (y p3) (y p5)) (Finite 625)))
              (fmul fmt (y p4) (Finite 672)));
          samples = [Eval p2x, Eval p3x, Eval p4x, Eval p5x, Eval p6x]
      in
        if \<not> isfinite area_kronrod
        then Some (NaN, samples)
        else if flt (fabs h) numeric_interval
        then Some (area_kronrod, samples)
        else
          let depth' = depth + 1
          in
            if depth' > max_depth
            then Some (area_kronrod, samples)
            else
              let area_lobatto = fmul fmt (fdiv fmt h (Finite 6))
                    (fadd fmt (fadd fmt (y start) (y end))
                              (fmul fmt (fadd fmt (y p3) (y p5)) (Finite 5)))
              in
                if flt (fabs (fsub fmt area_kronrod area_lobatto)) epsilon
                then Some (area_kronrod, samples)
                else
                  do {
                    r1 \<leftarrow> Lobatto_recursive fmt max_depth epsilon function start p2 depth';
                    r2 \<leftarrow> Lobatto_recursive fmt max_depth epsilon function p2 p3 depth';
                    r3 \<leftarrow> Lobatto_recursive fmt max_depth epsilon function p3 p4 depth';
                    r4 \<leftarrow> Lobatto_recursive fmt max_depth epsilon function p4 p5 depth';
                    r5 \<leftarrow> Lobatto_recursive fmt max_depth epsilon function p5 p6 depth';
                    r6 \<leftarrow> Lobatto_recursive fmt max_depth epsilon function p6 end depth';
                    Some (fadd fmt
                            (fadd fmt
                              (fadd fmt
                                (fadd fmt (fadd fmt (fst r1) (fst r2)) (fst r3))
                                (fst r4))
                              (fst r5))
                            (fst r6),
                          samples @ [Split (x start) (x end) depth']
                            @ snd r1 @ snd r2 @ snd r3 @ snd r4 @ snd r5 @ snd r6)
                  })"

declare Lobatto_recursive.simps [code]

text \<open>The function \<^verbatim>\<open>Quadrature::Lobatto\<close> (lines 179-263).\<close>

definition Lobatto ::
  "format \<Rightarrow> (Real \<Rightarrow> Real) \<Rightarrow> Real \<Rightarrow> Real \<Rightarrow> Real \<Rightarrow> 8 word \<Rightarrow> run option" where
  "Lobatto fmt function a0 b0 a_epsilon a_max_depth =
     (let (a, b) = (if flt b0 a0 then (b0, a0) else (a0, b0));
          max_depth = min a_max_depth 8;
          epsilon = fmax a_epsilon (numeric_epsilon fmt);
          start = \<lparr> x = a, y = function a \<rparr>;
          end = \<lparr> x = b, y = function b \<rparr>
      in
        if \<not> isfinite (y start) \<or> \<not> isfinite (y end)
        then Some (NaN, [Eval a, Eval b])
        else
          do {
            r \<leftarrow> Lobatto_recursive fmt max_depth epsilon function start end 0;
            Some (fst r, [Eval a, Eval b] @ snd r)
          })"

section \<open>A concrete format for evaluating the model\<close>

text \<open>
  The theorems below hold for every format.  To run the model on concrete inputs a format
  is fixed here: the range of the x87 \<^verbatim>\<open>long double\<close>, with exact arithmetic on the rationals
  of magnitude up to its largest value \<^verbatim>\<open>LDBL_MAX\<close>, which is \<open>(2\<^sup>6\<^sup>4 - 1) 2\<^sup>1\<^sup>6\<^sup>3\<^sup>2\<^sup>0\<close>, and overflow
  to an infinity beyond; its machine epsilon \<open>2\<^sup>-\<^sup>6\<^sup>3\<close>; and four steps of Heron's iteration
  for the square root.
\<close>

definition ldbl_scale :: rat where
  "ldbl_scale = 2 ^ 16320"

definition ldbl_max :: rat where
  "ldbl_max = (2 ^ 64 - 1) * ldbl_scale"

fun heron :: "nat \<Rightarrow> rat \<Rightarrow> rat \<Rightarrow> rat" where
  "heron 0 q s = s"
| "heron (Suc n) q s = heron n q ((s + q / s) / 2)"

definition demo_rnd :: "rat \<Rightarrow> Real" where
  "demo_rnd q = (if ldbl_max < q then PInf else if q < - ldbl_max then NInf else Finite q)"

definition demo_sqrt :: "Real \<Rightarrow> Real" where
  "demo_sqrt u =
     (case u of
        Finite q \<Rightarrow> if q < 0 then NaN else if q = 0 then Finite 0
                    else Finite (heron (Suc (Suc (Suc (Suc 0)))) q 1)
      | NZero \<Rightarrow> NZero
      | PInf \<Rightarrow> PInf
      | NInf \<Rightarrow> NaN
      | NaN \<Rightarrow> NaN)"

definition demo :: format where
  "demo = \<lparr> rnd = demo_rnd, numeric_epsilon = Finite (1 / 2 ^ 63), sqrt_op = demo_sqrt \<rparr>"

text \<open>The integrand \<^verbatim>\<open>func_poly\<close> of main.cpp, \<^verbatim>\<open>6 * x * x - 8 * x + 5\<close>, in that format.\<close>

definition func_poly :: "Real \<Rightarrow> Real" where
  "func_poly u =
     fadd demo (fsub demo (fmul demo (fmul demo (Finite 6) u) u) (fmul demo (Finite 8) u))
       (Finite 5)"

text \<open>An integrand with a pole, \<^verbatim>\<open>1 / std::abs(x - 0.25)\<close>: infinite at \<open>1/4\<close>.\<close>

definition func_pole :: "Real \<Rightarrow> Real" where
  "func_pole u = fdiv demo (Finite 1) (fabs (fsub demo u (Finite (1 / 4))))"

text \<open>
  Two integrands that read the sign of their argument, zero included:
  \<^verbatim>\<open>std::signbit(x) ? -LDBL_MAX : LDBL_MAX / 4\<close> and \<^verbatim>\<open>std::signbit(x) ? 0 : LDBL_MAX\<close>.
\<close>

definition func_sign :: "Real \<Rightarrow> Real" where
  "func_sign u = (if signbit u then Finite (- ldbl_max) else Finite (ldbl_max / 4))"

definition func_step :: "Real \<Rightarrow> Real" where
  "func_step u = (if signbit u then Finite 0 else Finite ldbl_max)"

section \<open>The parts of a recursion step, by name\<close>

text \<open>
  The statements below speak about the quantities of one recursion step.  For
  \<^verbatim>\<open>Simpson\<close>: the test made before any work, the error estimate
  \<open>(L + R - M) / 15\<close> and the corrected fine estimate \<open>L + R + error\<close>.
\<close>

definition Simpson_stop :: "format \<Rightarrow> Data_S \<Rightarrow> Data_S \<Rightarrow> Real \<Rightarrow> bool" where
  "Simpson_stop fmt start end epsilon \<longleftrightarrow>
     flt epsilon (numeric_epsilon fmt)
     \<or> flt (fabs (fsub fmt (x end) (x start))) numeric_interval"

definition Simpson_error :: "format \<Rightarrow> Data_S \<Rightarrow> Data_S \<Rightarrow> Data_S \<Rightarrow> Real" where
  "Simpson_error fmt left right middle =
     fdiv fmt (fsub fmt (fadd fmt (area left) (area right)) (area middle)) (Finite 15)"

definition Simpson_fine :: "format \<Rightarrow> Data_S \<Rightarrow> Data_S \<Rightarrow> Data_S \<Rightarrow> Real" where
  "Simpson_fine fmt left right middle =
     fadd fmt (fadd fmt (area left) (area right)) (Simpson_error fmt left right middle)"

text \<open>
  For \<^verbatim>\<open>Lobatto\<close>: the half-width \<open>h\<close>, the midpoint, the five nodes with their
  samples, the 7-point estimate \<open>(h / 1470) (77 (y\<^sub>1 + y\<^sub>7) + 432 (y\<^sub>2 + y\<^sub>6) + 625 (y\<^sub>3 + y\<^sub>5) + 672 y\<^sub>4)\<close>
  and the 4-point estimate \<open>(h / 6) (y\<^sub>1 + y\<^sub>7 + 5 (y\<^sub>3 + y\<^sub>5))\<close>, with the operands in the order
  of the code.
\<close>

definition sample :: "(Real \<Rightarrow> Real) \<Rightarrow> Real \<Rightarrow> Data" where
  "sample f u = \<lparr> x = u, y = f u \<rparr>"

definition Lobatto_h :: "format \<Rightarrow> Data \<Rightarrow> Data \<Rightarrow> Real" where
  "Lobatto_h fmt start end = fdiv fmt (fsub fmt (x end) (x start)) (Finite 2)"

definition Lobatto_mid :: "format \<Rightarrow> Data \<Rightarrow> Data \<Rightarrow> Real" where
  "Lobatto_mid fmt start end = fdiv fmt (fadd fmt (x start) (x end)) (Finite 2)"

definition Lobatto_p2 :: "format \<Rightarrow> (Real \<Rightarrow> Real) \<Rightarrow> Data \<Rightarrow> Data \<Rightarrow> Data" where
  "Lobatto_p2 fmt f start end =
     sample f (fsub fmt (Lobatto_mid fmt start end)
                 (fmul fmt (node_kronrod fmt) (Lobatto_h fmt start end)))"

definition Lobatto_p3 :: "format \<Rightarrow> (Real \<Rightarrow> Real) \<Rightarrow> Data \<Rightarrow> Data \<Rightarrow> Data" where
  "Lobatto_p3 fmt f start end =
     sample f (fsub fmt (Lobatto_mid fmt start end)
                 (fmul fmt (node_lobatto fmt) (Lobatto_h fmt start end)))"

definition Lobatto_p4 :: "format \<Rightarrow> (Real \<Rightarrow> Real) \<Rightarrow> Data \<Rightarrow> Data \<Rightarrow> Data" where
  "Lobatto_p4 fmt f start end = sample f (Lobatto_mid fmt start end)"

definition Lobatto_p5 :: "format \<Rightarrow> (Real \<Rightarrow> Real) \<Rightarrow> Data \<Rightarrow> Data \<Rightarrow> Data" where
  "Lobatto_p5 fmt f start end =
     sample f (fadd fmt (Lobatto_mid fmt start end)
                 (fmul fmt (node_lobatto fmt) (Lobatto_h fmt start end)))"

definition Lobatto_p6 :: "format \<Rightarrow> (Real \<Rightarrow> Real) \<Rightarrow> Data \<Rightarrow> Data \<Rightarrow> Data" where
  "Lobatto_p6 fmt f start end =
     sample f (fadd fmt (Lobatto_mid fmt start end)
                 (fmul fmt (node_kronrod fmt) (Lobatto_h fmt start end)))"

definition Lobatto_samples :: "format \<Rightarrow> (Real \<Rightarrow> Real) \<Rightarrow> Data \<Rightarrow> Data \<Rightarrow> event list" where
  "Lobatto_samples fmt f start end =
     [Eval (x (Lobatto_p2 fmt f start end)), Eval (x (Lobatto_p3 fmt f start end)),
      Eval (x (Lobatto_p4 fmt f start end)), Eval (x (Lobatto_p5 fmt f start end)),
      Eval (x (Lobatto_p6 fmt f start end))]"

definition area_kronrod :: "format \<Rightarrow> (Real \<Rightarrow> Real) \<Rightarrow> Data \<Rightarrow> Data \<Rightarrow> Real" where
  "area_kronrod fmt f start end =
     fmul fmt (fdiv fmt (Lobatto_h fmt start end) (Finite 1470))
       (fadd fmt
         (fadd fmt
           (fadd fmt
             (fmul fmt (fadd fmt (y start) (y end)) (Finite 77))
             (fmul fmt
                (fadd fmt (y (Lobatto_p2 fmt f start end)) (y (Lobatto_p6 fmt f start end)))
                (Finite 432)))
           (fmul fmt
              (fadd fmt (y (Lobatto_p3 fmt f start end)) (y (Lobatto_p5 fmt f start end)))
              (Finite 625)))
         (fmul fmt (y (Lobatto_p4 fmt f start end)) (Finite 672)))"

definition area_lobatto :: "format \<Rightarrow> (Real \<Rightarrow> Real) \<Rightarrow> Data \<Rightarrow> Data \<Rightarrow> Real" where
  "area_lobatto fmt f start end =
     fmul fmt (fdiv fmt (Lobatto_h fmt start end) (Finite 6))
       (fadd fmt (fadd fmt (y start) (y end))
          (fmul fmt
             (fadd fmt (y (Lobatto_p3 fmt f start end)) (y (Lobatto_p5 fmt f start end)))
             (Finite 5)))"

text \<open>
  The weighted sums of the two rules when every sample has the same value \<open>v\<close>, as on an
  interval of width zero.
\<close>

definition three_point_sum :: "format \<Rightarrow> Real \<Rightarrow> Real" where
  "three_point_sum fmt v = fadd fmt (fadd fmt v (fmul fmt (Finite 4) v)) v"

definition seven_point_sum :: "format \<Rightarrow> Real \<Rightarrow> Real" where
  "seven_point_sum fmt v =
     fadd fmt
       (fadd fmt
         (fadd fmt (fmul fmt (fadd fmt v v) (Finite 77)) (fmul fmt (fadd fmt v v) (Finite 432)))
         (fmul fmt (fadd fmt v v) (Finite 625)))
       (fmul fmt v (Finite 672))"

section \<open>The recursion steps as the specification words them\<close>

text \<open>
  The value a recursion returns, without the log; and the step of \<^verbatim>\<open>Simpson\<close> written from
  the words of claim C1: return \<open>M\<close> when the tolerance is below machine epsilon or the
  width below \<^verbatim>\<open>numeric_interval\<close>; otherwise form \<open>L\<close> and \<open>R\<close>, set
  \<open>error = (L + R - M) / 15\<close>, return \<open>L + R + error\<close> when \<open>|error| < epsilon\<close> or the depth
  budget is used up, and otherwise the sum of the two recursive calls, each with
  \<open>epsilon / 2\<close> and \<open>depth + 1\<close>.
\<close>

definition Simpson_value ::
  "format \<Rightarrow> 8 word \<Rightarrow> (Real \<Rightarrow> Real) \<Rightarrow> Data_S \<Rightarrow> Data_S \<Rightarrow> Data_S \<Rightarrow> Real \<Rightarrow> 8 word
     \<Rightarrow> Real option" where
  "Simpson_value fmt max_depth f start middle end epsilon depth =
     map_option fst (Simpson_recursive fmt max_depth f start middle end epsilon depth)"

definition Simpson_step_claimed ::
  "format \<Rightarrow> 8 word \<Rightarrow> (Real \<Rightarrow> Real) \<Rightarrow> Data_S \<Rightarrow> Data_S \<Rightarrow> Data_S \<Rightarrow> Real \<Rightarrow> 8 word
     \<Rightarrow> Real option" where
  "Simpson_step_claimed fmt max_depth f start middle end epsilon depth =
     (if flt epsilon (numeric_epsilon fmt)
         \<or> flt (fabs (fsub fmt (x end) (x start))) numeric_interval
      then Some (area middle)
      else
        let L = evaluate fmt f start middle;
            R = evaluate fmt f middle end;
            error = fdiv fmt (fsub fmt (fadd fmt (area L) (area R)) (area middle)) (Finite 15)
        in
          if flt (fabs error) epsilon \<or> max_depth < depth + 1
          then Some (fadd fmt (fadd fmt (area L) (area R)) error)
          else
            do {
              l \<leftarrow> Simpson_value fmt max_depth f start L middle
                     (fdiv fmt epsilon (Finite 2)) (depth + 1);
              r \<leftarrow> Simpson_value fmt max_depth f middle R end
                     (fdiv fmt epsilon (Finite 2)) (depth + 1);
              Some (fadd fmt l r)
            })"

text \<open>
  The step of \<^verbatim>\<open>Lobatto\<close> written from the words of claim C2: five nodes about the midpoint
  at the offsets \<open>sqrt(1/5) h\<close> and \<open>sqrt(2/3) h\<close>, the 7-point estimate with the weights
  77, 432, 625, 672, 625, 432, 77 scaled by \<open>h / 1470\<close>, returned when \<open>|h|\<close> is below
  \<^verbatim>\<open>numeric_interval\<close> or the depth budget is exceeded, or when it differs from the 4-point
  estimate (weights 1, 5, 5, 1 scaled by \<open>h / 6\<close>) by less than \<open>epsilon\<close>; otherwise the sum
  of six recursive calls with the same \<open>epsilon\<close> and \<open>depth + 1\<close>.  The claim does not fix
  the order in which the terms are added; the code's order is taken.
\<close>

definition Lobatto_value ::
  "format \<Rightarrow> 8 word \<Rightarrow> Real \<Rightarrow> (Real \<Rightarrow> Real) \<Rightarrow> Data \<Rightarrow> Data \<Rightarrow> 8 word \<Rightarrow> Real option" where
  "Lobatto_value fmt max_depth epsilon f start end depth =
     map_option fst (Lobatto_recursive fmt max_depth epsilon f start end depth)"

definition Lobatto_step_claimed ::
  "format \<Rightarrow> 8 word \<Rightarrow> Real \<Rightarrow> (Real \<Rightarrow> Real) \<Rightarrow> Data \<Rightarrow> Data \<Rightarrow> 8 word \<Rightarrow> Real option" where
  "Lobatto_step_claimed fmt max_depth epsilon f start end depth =
     (let h = fdiv fmt (fsub fmt (x end) (x start)) (Finite 2);
          c = fdiv fmt (fadd fmt (x start) (x end)) (Finite 2);
          off_l = fmul fmt (sqrt_op fmt (fdiv fmt (Finite 1) (Finite 5))) h;
          off_k = fmul fmt (sqrt_op fmt (fdiv fmt (Finite 2) (Finite 3))) h;
          p2 = sample f (fsub fmt c off_k);
          p3 = sample f (fsub fmt c off_l);
          p4 = sample f c;
          p5 = sample f (fadd fmt c off_l);
          p6 = sample f (fadd fmt c off_k);
          kronrod = fmul fmt (fdiv fmt h (Finite 1470))
            (fadd fmt
              (fadd fmt
                (fadd fmt (fmul fmt (Finite 77) (fadd fmt (y start) (y end)))
                          (fmul fmt (Finite 432) (fadd fmt (y p2) (y p6))))
                (fmul fmt (Finite 625) (fadd fmt (y p3) (y p5))))
              (fmul fmt (Finite 672) (y p4)))
      in
        if flt (fabs h) numeric_interval \<or> max_depth < depth + 1
        then Some kronrod
        else
          let lobatto = fmul fmt (fdiv fmt h (Finite 6))
                (fadd fmt (fadd fmt (y start) (y end))
                   (fmul fmt (Finite 5) (fadd fmt (y p3) (y p5))))
          in
            if flt (fabs (fsub fmt kronrod lobatto)) epsilon
            then Some kronrod
            else
              do {
                r1 \<leftarrow> Lobatto_value fmt max_depth epsilon f start p2 (depth + 1);
                r2 \<leftarrow> Lobatto_value fmt max_depth epsilon f p2 p3 (depth + 1);
                r3 \<leftarrow> Lobatto_value fmt max_depth epsilon f p3 p4 (depth + 1);
                r4 \<leftarrow> Lobatto_value fmt max_depth epsilon f p4 p5 (depth + 1);
                r5 \<leftarrow> Lobatto_value fmt max_depth epsilon f p5 p6 (depth + 1);
                r6 \<leftarrow> Lobatto_value fmt max_depth epsilon f p6 end (depth + 1);
                Some (fadd fmt (fadd fmt (fadd fmt (fadd fmt (fadd fmt r1 r2) r3) r4) r5) r6)
              })"

text \<open>
  The acceptance test of \<^verbatim>\<open>Simpson\<close> as claim C9 words it: the error estimate of the
  sub-interval taken relative to the estimate \<open>L + R\<close>, compared with the tolerance.
\<close>

definition Simpson_accepts_relative ::
  "format \<Rightarrow> Data_S \<Rightarrow> Data_S \<Rightarrow> Data_S \<Rightarrow> Real \<Rightarrow> bool" where
  "Simpson_accepts_relative fmt left right middle epsilon \<longleftrightarrow>
     flt (fabs (fdiv fmt (Simpson_error fmt left right middle)
                  (fadd fmt (area left) (area right)))) epsilon"

section \<open>Facts about the arithmetic\<close>

lemma zero_simps [simp]:
  "zero False = Finite 0" "zero True = NZero" "isfinite (zero n)" "valof (zero n) = 0"
  "signbit (zero n) = n" "fabs (zero n) = Finite 0"
  by (simp_all add: zero_def)

lemma infinity_simps [simp]:
  "infinity False = PInf" "infinity True = NInf" "\<not> isfinite (infinity n)"
  "infinity n \<noteq> NaN" "fabs (infinity n) = PInf"
  by (simp_all add: infinity_def)

lemma flt_irrefl: "\<not> flt u u"
  by (cases u) simp_all

lemma fmax_below: "flt u v \<Longrightarrow> fmax u v = v"
  by (simp add: fmax_def)

lemma fmax_same: "fmax u u = u"
  by (simp add: fmax_def)

lemma fmul_commute: "fmul fmt u v = fmul fmt v u"
  by (cases u; cases v) (simp_all add: mult.commute)

lemma fadd_NaN [simp]: "fadd fmt NaN v = NaN" "fadd fmt u NaN = NaN"
  by (cases u; simp)+

lemma fmul_NaN [simp]: "fmul fmt NaN v = NaN" "fmul fmt u NaN = NaN"
  by (cases u; simp)+

lemma fdiv_NaN [simp]: "fdiv fmt NaN v = NaN" "fdiv fmt u NaN = NaN"
  by (cases u; simp)+

lemma fsub_NaN [simp]: "fsub fmt NaN v = NaN" "fsub fmt u NaN = NaN"
  by (simp_all add: fsub_def)

lemma isfinite_fneg [simp]: "isfinite (fneg u) = isfinite u"
  by (cases u) simp_all

lemma isfinite_fadd: "isfinite (fadd fmt u v) \<Longrightarrow> isfinite u \<and> isfinite v"
  by (cases u; cases v) simp_all

lemma isfinite_fsub: "isfinite (fsub fmt u v) \<Longrightarrow> isfinite u \<and> isfinite v"
  using isfinite_fadd [of fmt u "fneg v"] by (simp add: fsub_def)

lemma isfinite_fmul: "isfinite (fmul fmt u v) \<Longrightarrow> isfinite u \<and> isfinite v"
  by (cases u; cases v) (simp_all split: if_splits)

lemma isfinite_fdiv_const: "isfinite (fdiv fmt u (Finite q)) \<Longrightarrow> isfinite u"
  by (cases u) (simp_all split: if_splits)

lemma flt_asym: "flt u v \<Longrightarrow> \<not> flt v u"
  by (cases u; cases v) simp_all

lemma flt_cases:
  "flt u v \<or> flt v u \<or> u = v \<or> u = NaN \<or> v = NaN \<or> opposite_zeros u v"
  by (cases u; cases v) (auto simp: opposite_zeros_def)

lemma fmul_zero_finite: "isfinite u \<Longrightarrow> fmul fmt (Finite 0) u = zero (signbit u)"
  by (cases u) simp_all

lemma fmul_zero_nonfinite: "\<not> isfinite u \<Longrightarrow> fmul fmt (Finite 0) u = NaN"
  by (cases u) simp_all

lemma fdiv_zero_const: "0 < q \<Longrightarrow> fdiv fmt (zero n) (Finite q) = zero n"
  by (cases n) simp_all

section \<open>Facts about the log and the depth counter\<close>

lemma evals_simps [simp]:
  "evals [] = []"
  "evals (Eval u # tr) = u # evals tr"
  "evals (Split s e d # tr) = evals tr"
  "evals (tr @ tr') = evals tr @ evals tr'"
  by (simp_all add: evals_def)

text \<open>Below 255 the increment of a \<^verbatim>\<open>uint8_t\<close> does not wrap.\<close>

lemma word8_succ:
  fixes d m :: "8 word"
  assumes "d \<le> m" "m < 255"
  shows "unat (d + 1) = Suc (unat d)"
proof -
  have "unat d \<le> unat m" using assms(1) by (simp add: word_le_nat_alt)
  moreover have "unat m < 255" using assms(2) by (simp add: word_less_nat_alt)
  moreover have "unat (d + 1) = (unat d + 1) mod 256" by (simp add: unat_word_ariths)
  ultimately show ?thesis by simp
qed

lemma word8_depth_step:
  fixes d m :: "8 word"
  assumes "d \<le> m" "m < 255" "\<not> m < d + 1"
  shows "unat m - unat d = Suc (unat m - unat (d + 1))"
proof -
  from assms(3) have "d + 1 \<le> m" by simp
  then have "unat (d + 1) \<le> unat m" by (simp add: word_le_nat_alt)
  with word8_succ [OF assms(1,2)] show ?thesis by simp
qed

section \<open>Facts about the concrete format\<close>

lemma demo_simps:
  "rnd demo = demo_rnd" "numeric_epsilon demo = Finite (1 / 2 ^ 63)" "sqrt_op demo = demo_sqrt"
  by (simp_all add: demo_def)

text \<open>The largest value is kept as a name; what is used of it is that it is large.\<close>

lemma ldbl_scale_ge: "2 \<le> ldbl_scale"
  unfolding ldbl_scale_def by (rule self_le_power) simp_all

lemma ldbl_max_ge: "2 ^ 64 \<le> ldbl_max"
  using ldbl_scale_ge by (simp add: ldbl_max_def)

lemma ldbl_max_pos: "0 < ldbl_max"
  using ldbl_max_ge by simp

lemma demo_rnd_small: "\<bar>q\<bar> \<le> 2 ^ 64 \<Longrightarrow> demo_rnd q = Finite q"
  using ldbl_max_ge by (simp add: demo_rnd_def abs_le_iff)

lemma three_point_sum_max: "three_point_sum demo (Finite ldbl_max) = PInf"
  using ldbl_max_pos by (simp add: three_point_sum_def demo_simps demo_rnd_def)

lemma seven_point_sum_max: "seven_point_sum demo (Finite ldbl_max) = PInf"
  using ldbl_max_pos by (simp add: seven_point_sum_def demo_simps demo_rnd_def)

lemma representable_demo: "\<bar>q\<bar> \<le> 2 ^ 64 \<Longrightarrow> representable demo q"
  by (simp add: representable_def demo_simps demo_rnd_small)

lemma halving_contracts_demo: "halving_contracts demo"
  unfolding halving_contracts_def
proof (intro allI impI)
  fix w assume a: "flt (fabs w) numeric_interval"
  show "flt (fabs (fdiv demo w (Finite 2))) numeric_interval"
  proof (cases w)
    case (Finite q)
    with a have q: "\<bar>q\<bar> < 1 / 2 ^ 52" by (simp add: numeric_interval_def)
    then have "\<bar>q / 2\<bar> \<le> 2 ^ 64" by simp
    then have "demo_rnd (q / 2) = Finite (q / 2)" by (rule demo_rnd_small)
    with q Finite show ?thesis
      by (simp add: demo_simps numeric_interval_def)
  qed (use a in \<open>simp_all add: numeric_interval_def\<close>)
qed

section \<open>The recursion of Simpson, case by case\<close>

lemmas Simpson_recursive_raw =
  Simpson_recursive.raw_induct [rotated, consumes 1, case_names step]

text \<open>One unfolding of the recursion, with the parts named.\<close>

lemma Simpson_recursive_unfold:
  "Simpson_recursive fmt md f s m e eps d =
     (let L = evaluate fmt f s m; R = evaluate fmt f m e in
      if Simpson_stop fmt s e eps then Some (area m, [])
      else if \<not> isfinite (y L) \<or> \<not> isfinite (y R)
        then Some (NaN, [Eval (x L), Eval (x R)])
      else if flt (fabs (Simpson_error fmt L R m)) eps \<or> md < d + 1
        then Some (Simpson_fine fmt L R m, [Eval (x L), Eval (x R)])
      else do {
        l \<leftarrow> Simpson_recursive fmt md f s L m (fdiv fmt eps (Finite 2)) (d + 1);
        r \<leftarrow> Simpson_recursive fmt md f m R e (fdiv fmt eps (Finite 2)) (d + 1);
        Some (fadd fmt (fst l) (fst r),
              [Eval (x L), Eval (x R), Split (x s) (x e) (d + 1)] @ snd l @ snd r)
      })"
  by (subst Simpson_recursive.simps)
     (simp add: Simpson_stop_def Simpson_error_def Simpson_fine_def Let_def)

text \<open>
  Induction over a run that returned: a property that holds of every step that returns at
  once, and is passed from the two sub-runs to the step that called them, holds of the run.
\<close>

lemma Simpson_recursive_induct [consumes 1, case_names stop nonfinite accept split]:
  assumes run: "Simpson_recursive fmt md f s m e eps d = Some r"
  assumes stop: "\<And>s m e eps d. Simpson_stop fmt s e eps \<Longrightarrow> P s m e eps d (area m, [])"
  assumes nonfinite: "\<And>s m e eps d L R.
     \<not> Simpson_stop fmt s e eps \<Longrightarrow> L = evaluate fmt f s m \<Longrightarrow> R = evaluate fmt f m e \<Longrightarrow>
     \<not> isfinite (y L) \<or> \<not> isfinite (y R) \<Longrightarrow>
     P s m e eps d (NaN, [Eval (x L), Eval (x R)])"
  assumes accept: "\<And>s m e eps d L R.
     \<not> Simpson_stop fmt s e eps \<Longrightarrow> L = evaluate fmt f s m \<Longrightarrow> R = evaluate fmt f m e \<Longrightarrow>
     isfinite (y L) \<Longrightarrow> isfinite (y R) \<Longrightarrow>
     flt (fabs (Simpson_error fmt L R m)) eps \<or> md < d + 1 \<Longrightarrow>
     P s m e eps d (Simpson_fine fmt L R m, [Eval (x L), Eval (x R)])"
  assumes split: "\<And>s m e eps d L R l r.
     \<not> Simpson_stop fmt s e eps \<Longrightarrow> L = evaluate fmt f s m \<Longrightarrow> R = evaluate fmt f m e \<Longrightarrow>
     isfinite (y L) \<Longrightarrow> isfinite (y R) \<Longrightarrow>
     \<not> flt (fabs (Simpson_error fmt L R m)) eps \<Longrightarrow> \<not> md < d + 1 \<Longrightarrow>
     Simpson_recursive fmt md f s L m (fdiv fmt eps (Finite 2)) (d + 1) = Some l \<Longrightarrow>
     Simpson_recursive fmt md f m R e (fdiv fmt eps (Finite 2)) (d + 1) = Some r \<Longrightarrow>
     P s L m (fdiv fmt eps (Finite 2)) (d + 1) l \<Longrightarrow>
     P m R e (fdiv fmt eps (Finite 2)) (d + 1) r \<Longrightarrow>
     P s m e eps d (fadd fmt (fst l) (fst r),
        [Eval (x L), Eval (x R), Split (x s) (x e) (d + 1)] @ snd l @ snd r)"
  shows "P s m e eps d r"
proof -
  have "fmt' = fmt \<and> md' = md \<and> f' = f \<longrightarrow>
          Simpson_recursive fmt md f s m e eps d = Some r \<and> P s m e eps d r"
    if "Simpson_recursive fmt' md' f' s m e eps d = Some r" for fmt' md' f'
    using that
  proof (induction fmt' md' f' s m e eps d r rule: Simpson_recursive_raw)
    case (step rec fmt' md' f' s m e eps d r)
    show ?case
    proof (intro impI, elim conjE)
      assume eq: "fmt' = fmt" "md' = md" "f' = f"
      note body = step(2) [unfolded eq]
      note IH = step(1) [of fmt md f, simplified]
      let ?L = "evaluate fmt f s m" and ?R = "evaluate fmt f m e"
      consider (a) "Simpson_stop fmt s e eps"
        | (b) "\<not> Simpson_stop fmt s e eps" "\<not> isfinite (y ?L) \<or> \<not> isfinite (y ?R)"
        | (c) "\<not> Simpson_stop fmt s e eps" "isfinite (y ?L)" "isfinite (y ?R)"
              "flt (fabs (Simpson_error fmt ?L ?R m)) eps \<or> md < d + 1"
        | (d) "\<not> Simpson_stop fmt s e eps" "isfinite (y ?L)" "isfinite (y ?R)"
              "\<not> flt (fabs (Simpson_error fmt ?L ?R m)) eps" "\<not> md < d + 1"
        by blast
      then show "Simpson_recursive fmt md f s m e eps d = Some r \<and> P s m e eps d r"
      proof cases
        case a
        with body have r: "r = (area m, [])" by (simp add: Simpson_stop_def)
        have "Simpson_recursive fmt md f s m e eps d = Some r"
          using a unfolding r by (subst Simpson_recursive_unfold) (simp add: Let_def)
        with stop [OF a] r show ?thesis by simp
      next
        case b
        with body have r: "r = (NaN, [Eval (x ?L), Eval (x ?R)])"
          by (auto simp: Simpson_stop_def Let_def)
        have "Simpson_recursive fmt md f s m e eps d = Some r"
          using b unfolding r by (subst Simpson_recursive_unfold) (simp add: Let_def)
        with nonfinite [OF b(1) refl refl b(2)] r show ?thesis by simp
      next
        case c
        with body have r: "r = (Simpson_fine fmt ?L ?R m, [Eval (x ?L), Eval (x ?R)])"
          by (auto simp: Simpson_stop_def Simpson_error_def Simpson_fine_def Let_def
                split: if_splits)
        have "Simpson_recursive fmt md f s m e eps d = Some r"
          using c unfolding r by (subst Simpson_recursive_unfold) (simp add: Let_def)
        with accept [OF c(1) refl refl c(2,3,4)] r show ?thesis by simp
      next
        case d
        with body obtain l r' where
          l: "rec fmt md f s ?L m (fdiv fmt eps (Finite 2)) (d + 1) = Some l" and
          r': "rec fmt md f m ?R e (fdiv fmt eps (Finite 2)) (d + 1) = Some r'" and
          r: "r = (fadd fmt (fst l) (fst r'),
                 [Eval (x ?L), Eval (x ?R), Split (x s) (x e) (d + 1)] @ snd l @ snd r')"
          by (auto simp: Simpson_stop_def Simpson_error_def Let_def split: bind_splits)
        from IH [OF l]
        have l': "Simpson_recursive fmt md f s ?L m (fdiv fmt eps (Finite 2)) (d + 1) = Some l"
          and Pl: "P s ?L m (fdiv fmt eps (Finite 2)) (d + 1) l" by simp_all
        from IH [OF r']
        have r'': "Simpson_recursive fmt md f m ?R e (fdiv fmt eps (Finite 2)) (d + 1) = Some r'"
          and Pr: "P m ?R e (fdiv fmt eps (Finite 2)) (d + 1) r'" by simp_all
        have "Simpson_recursive fmt md f s m e eps d = Some r"
          using d unfolding r by (subst Simpson_recursive_unfold) (simp add: Let_def l' r'')
        with split [OF d(1) refl refl d(2,3,4,5) l' r'' Pl Pr] r show ?thesis by simp
      qed
    qed
  qed
  from this [OF run] show ?thesis by simp
qed

text \<open>The recursion returns: each call made has a depth one larger, and none above
  \<^verbatim>\<open>max_depth\<close>.\<close>

lemma Simpson_recursive_returns:
  assumes "md < 255" "d \<le> md"
  shows "\<exists>r. Simpson_recursive fmt md f s m e eps d = Some r"
  using assms(2)
proof (induction "unat md - unat d" arbitrary: d s m e eps rule: less_induct)
  case less
  show ?case
  proof (cases "md < d + 1")
    case True
    then show ?thesis by (subst Simpson_recursive_unfold) (simp add: Let_def)
  next
    case False
    then have le: "d + 1 \<le> md" by simp
    have dec: "unat md - unat (d + 1) < unat md - unat d"
      using word8_depth_step [OF less.prems assms(1) False] by simp
    obtain l where l: "Simpson_recursive fmt md f s (evaluate fmt f s m) m
        (fdiv fmt eps (Finite 2)) (d + 1) = Some l"
      using less.hyps [OF dec le] by blast
    obtain r where r: "Simpson_recursive fmt md f m (evaluate fmt f m e) e
        (fdiv fmt eps (Finite 2)) (d + 1) = Some r"
      using less.hyps [OF dec le] by blast
    show ?thesis by (subst Simpson_recursive_unfold) (simp add: Let_def l r)
  qed
qed

section \<open>The recursion of Lobatto, case by case\<close>

lemmas Lobatto_recursive_raw =
  Lobatto_recursive.raw_induct [rotated, consumes 1, case_names step]

lemma Lobatto_recursive_unfold:
  "Lobatto_recursive fmt md eps f s e d =
     (if \<not> isfinite (area_kronrod fmt f s e) then Some (NaN, Lobatto_samples fmt f s e)
      else if flt (fabs (Lobatto_h fmt s e)) numeric_interval \<or> md < d + 1
        then Some (area_kronrod fmt f s e, Lobatto_samples fmt f s e)
      else if flt (fabs (fsub fmt (area_kronrod fmt f s e) (area_lobatto fmt f s e))) eps
        then Some (area_kronrod fmt f s e, Lobatto_samples fmt f s e)
      else do {
        r1 \<leftarrow> Lobatto_recursive fmt md eps f s (Lobatto_p2 fmt f s e) (d + 1);
        r2 \<leftarrow> Lobatto_recursive fmt md eps f (Lobatto_p2 fmt f s e) (Lobatto_p3 fmt f s e) (d + 1);
        r3 \<leftarrow> Lobatto_recursive fmt md eps f (Lobatto_p3 fmt f s e) (Lobatto_p4 fmt f s e) (d + 1);
        r4 \<leftarrow> Lobatto_recursive fmt md eps f (Lobatto_p4 fmt f s e) (Lobatto_p5 fmt f s e) (d + 1);
        r5 \<leftarrow> Lobatto_recursive fmt md eps f (Lobatto_p5 fmt f s e) (Lobatto_p6 fmt f s e) (d + 1);
        r6 \<leftarrow> Lobatto_recursive fmt md eps f (Lobatto_p6 fmt f s e) e (d + 1);
        Some (fadd fmt (fadd fmt (fadd fmt (fadd fmt (fadd fmt (fst r1) (fst r2)) (fst r3))
                 (fst r4)) (fst r5)) (fst r6),
              Lobatto_samples fmt f s e @ [Split (x s) (x e) (d + 1)]
                @ snd r1 @ snd r2 @ snd r3 @ snd r4 @ snd r5 @ snd r6)
      })"
  by (subst Lobatto_recursive.simps)
     (simp add: area_kronrod_def area_lobatto_def Lobatto_samples_def Lobatto_p2_def
        Lobatto_p3_def Lobatto_p4_def Lobatto_p5_def Lobatto_p6_def Lobatto_h_def
        Lobatto_mid_def sample_def Let_def)

text \<open>Induction over a run of the recursion of \<^verbatim>\<open>Lobatto\<close> that returned.\<close>

lemma Lobatto_recursive_induct [consumes 1, case_names nonfinite final converged split]:
  assumes run: "Lobatto_recursive fmt md eps f s e d = Some r"
  assumes nonfinite: "\<And>s e d. \<not> isfinite (area_kronrod fmt f s e) \<Longrightarrow>
     P s e d (NaN, Lobatto_samples fmt f s e)"
  assumes final: "\<And>s e d. isfinite (area_kronrod fmt f s e) \<Longrightarrow>
     flt (fabs (Lobatto_h fmt s e)) numeric_interval \<or> md < d + 1 \<Longrightarrow>
     P s e d (area_kronrod fmt f s e, Lobatto_samples fmt f s e)"
  assumes converged: "\<And>s e d. isfinite (area_kronrod fmt f s e) \<Longrightarrow>
     \<not> flt (fabs (Lobatto_h fmt s e)) numeric_interval \<Longrightarrow> \<not> md < d + 1 \<Longrightarrow>
     flt (fabs (fsub fmt (area_kronrod fmt f s e) (area_lobatto fmt f s e))) eps \<Longrightarrow>
     P s e d (area_kronrod fmt f s e, Lobatto_samples fmt f s e)"
  assumes split: "\<And>s e d p2 p3 p4 p5 p6 r1 r2 r3 r4 r5 r6.
     isfinite (area_kronrod fmt f s e) \<Longrightarrow>
     \<not> flt (fabs (Lobatto_h fmt s e)) numeric_interval \<Longrightarrow> \<not> md < d + 1 \<Longrightarrow>
     \<not> flt (fabs (fsub fmt (area_kronrod fmt f s e) (area_lobatto fmt f s e))) eps \<Longrightarrow>
     p2 = Lobatto_p2 fmt f s e \<Longrightarrow> p3 = Lobatto_p3 fmt f s e \<Longrightarrow> p4 = Lobatto_p4 fmt f s e \<Longrightarrow>
     p5 = Lobatto_p5 fmt f s e \<Longrightarrow> p6 = Lobatto_p6 fmt f s e \<Longrightarrow>
     Lobatto_recursive fmt md eps f s p2 (d + 1) = Some r1 \<Longrightarrow>
     Lobatto_recursive fmt md eps f p2 p3 (d + 1) = Some r2 \<Longrightarrow>
     Lobatto_recursive fmt md eps f p3 p4 (d + 1) = Some r3 \<Longrightarrow>
     Lobatto_recursive fmt md eps f p4 p5 (d + 1) = Some r4 \<Longrightarrow>
     Lobatto_recursive fmt md eps f p5 p6 (d + 1) = Some r5 \<Longrightarrow>
     Lobatto_recursive fmt md eps f p6 e (d + 1) = Some r6 \<Longrightarrow>
     P s p2 (d + 1) r1 \<Longrightarrow> P p2 p3 (d + 1) r2 \<Longrightarrow> P p3 p4 (d + 1) r3 \<Longrightarrow>
     P p4 p5 (d + 1) r4 \<Longrightarrow> P p5 p6 (d + 1) r5 \<Longrightarrow> P p6 e (d + 1) r6 \<Longrightarrow>
     P s e d (fadd fmt (fadd fmt (fadd fmt (fadd fmt (fadd fmt (fst r1) (fst r2)) (fst r3))
                 (fst r4)) (fst r5)) (fst r6),
              Lobatto_samples fmt f s e @ [Split (x s) (x e) (d + 1)]
                @ snd r1 @ snd r2 @ snd r3 @ snd r4 @ snd r5 @ snd r6)"
  shows "P s e d r"
proof -
  have "fmt' = fmt \<and> md' = md \<and> eps' = eps \<and> f' = f \<longrightarrow>
          Lobatto_recursive fmt md eps f s e d = Some r \<and> P s e d r"
    if "Lobatto_recursive fmt' md' eps' f' s e d = Some r" for fmt' md' eps' f'
    using that
  proof (induction fmt' md' eps' f' s e d r rule: Lobatto_recursive_raw)
    case (step rec fmt' md' eps' f' s e d r)
    show ?case
    proof (intro impI, elim conjE)
      assume eq: "fmt' = fmt" "md' = md" "eps' = eps" "f' = f"
      note IH = step(1) [of fmt md eps f, simplified]
      let ?K = "area_kronrod fmt f s e" and ?S = "Lobatto_samples fmt f s e"
      let ?p2 = "Lobatto_p2 fmt f s e" and ?p3 = "Lobatto_p3 fmt f s e"
      let ?p4 = "Lobatto_p4 fmt f s e" and ?p5 = "Lobatto_p5 fmt f s e"
      let ?p6 = "Lobatto_p6 fmt f s e"
      note body = step(2) [unfolded eq]
      note defs = area_kronrod_def area_lobatto_def Lobatto_samples_def Lobatto_p2_def
        Lobatto_p3_def Lobatto_p4_def Lobatto_p5_def Lobatto_p6_def Lobatto_h_def
        Lobatto_mid_def sample_def Let_def
      consider (a) "\<not> isfinite ?K"
        | (b) "isfinite ?K" "flt (fabs (Lobatto_h fmt s e)) numeric_interval \<or> md < d + 1"
        | (c) "isfinite ?K" "\<not> flt (fabs (Lobatto_h fmt s e)) numeric_interval" "\<not> md < d + 1"
              "flt (fabs (fsub fmt ?K (area_lobatto fmt f s e))) eps"
        | (d) "isfinite ?K" "\<not> flt (fabs (Lobatto_h fmt s e)) numeric_interval" "\<not> md < d + 1"
              "\<not> flt (fabs (fsub fmt ?K (area_lobatto fmt f s e))) eps"
        by blast
      then show "Lobatto_recursive fmt md eps f s e d = Some r \<and> P s e d r"
      proof cases
        case a
        with body have r: "r = (NaN, ?S)" by (simp add: defs)
        have "Lobatto_recursive fmt md eps f s e d = Some r"
          using a unfolding r by (subst Lobatto_recursive_unfold) simp
        with nonfinite [OF a] r show ?thesis by simp
      next
        case b
        with body have r: "r = (?K, ?S)" by (auto simp: defs split: if_splits)
        have "Lobatto_recursive fmt md eps f s e d = Some r"
          using b unfolding r by (subst Lobatto_recursive_unfold) simp
        with final [OF b] r show ?thesis by simp
      next
        case c
        with body have r: "r = (?K, ?S)" by (auto simp: defs split: if_splits)
        have "Lobatto_recursive fmt md eps f s e d = Some r"
          using c unfolding r by (subst Lobatto_recursive_unfold) simp
        with converged [OF c] r show ?thesis by simp
      next
        case d
        with body obtain r1 r2 r3 r4 r5 r6 where
          r1: "rec fmt md eps f s ?p2 (d + 1) = Some r1" and
          r2: "rec fmt md eps f ?p2 ?p3 (d + 1) = Some r2" and
          r3: "rec fmt md eps f ?p3 ?p4 (d + 1) = Some r3" and
          r4: "rec fmt md eps f ?p4 ?p5 (d + 1) = Some r4" and
          r5: "rec fmt md eps f ?p5 ?p6 (d + 1) = Some r5" and
          r6: "rec fmt md eps f ?p6 e (d + 1) = Some r6" and
          r: "r = (fadd fmt (fadd fmt (fadd fmt (fadd fmt (fadd fmt (fst r1) (fst r2)) (fst r3))
                 (fst r4)) (fst r5)) (fst r6),
              ?S @ [Split (x s) (x e) (d + 1)]
                @ snd r1 @ snd r2 @ snd r3 @ snd r4 @ snd r5 @ snd r6)"
          by (auto simp: defs bind_eq_Some_conv)
        note q1 = IH [OF r1] and q2 = IH [OF r2] and q3 = IH [OF r3]
          and q4 = IH [OF r4] and q5 = IH [OF r5] and q6 = IH [OF r6]
        have "Lobatto_recursive fmt md eps f s e d = Some r"
          using d unfolding r
          by (subst Lobatto_recursive_unfold)
             (simp add: q1 [THEN conjunct1] q2 [THEN conjunct1] q3 [THEN conjunct1]
                q4 [THEN conjunct1] q5 [THEN conjunct1] q6 [THEN conjunct1])
        with split [OF d refl refl refl refl refl
            q1 [THEN conjunct1] q2 [THEN conjunct1] q3 [THEN conjunct1]
            q4 [THEN conjunct1] q5 [THEN conjunct1] q6 [THEN conjunct1]
            q1 [THEN conjunct2] q2 [THEN conjunct2] q3 [THEN conjunct2]
            q4 [THEN conjunct2] q5 [THEN conjunct2] q6 [THEN conjunct2]] r
        show ?thesis by simp
      qed
    qed
  qed
  from this [OF run] show ?thesis by simp
qed

lemma Lobatto_recursive_returns:
  assumes "md < 255" "d \<le> md"
  shows "\<exists>r. Lobatto_recursive fmt md eps f s e d = Some r"
  using assms(2)
proof (induction "unat md - unat d" arbitrary: d s e rule: less_induct)
  case less
  show ?case
  proof (cases "md < d + 1")
    case True
    then show ?thesis by (subst Lobatto_recursive_unfold) simp
  next
    case False
    then have le: "d + 1 \<le> md" by simp
    have dec: "unat md - unat (d + 1) < unat md - unat d"
      using word8_depth_step [OF less.prems assms(1) False] by simp
    note sub = less.hyps [OF dec le]
    obtain r1 where r1: "Lobatto_recursive fmt md eps f s (Lobatto_p2 fmt f s e) (d + 1) = Some r1"
      using sub by blast
    obtain r2 where r2: "Lobatto_recursive fmt md eps f (Lobatto_p2 fmt f s e) (Lobatto_p3 fmt f s e) (d + 1) = Some r2"
      using sub by blast
    obtain r3 where r3: "Lobatto_recursive fmt md eps f (Lobatto_p3 fmt f s e) (Lobatto_p4 fmt f s e) (d + 1) = Some r3"
      using sub by blast
    obtain r4 where r4: "Lobatto_recursive fmt md eps f (Lobatto_p4 fmt f s e) (Lobatto_p5 fmt f s e) (d + 1) = Some r4"
      using sub by blast
    obtain r5 where r5: "Lobatto_recursive fmt md eps f (Lobatto_p5 fmt f s e) (Lobatto_p6 fmt f s e) (d + 1) = Some r5"
      using sub by blast
    obtain r6 where r6: "Lobatto_recursive fmt md eps f (Lobatto_p6 fmt f s e) e (d + 1) = Some r6"
      using sub by blast
    show ?thesis by (subst Lobatto_recursive_unfold) (simp add: r1 r2 r3 r4 r5 r6)
  qed
qed

section \<open>Parameter clamping\<close>

text \<open>
  Claim C6.  Out-of-range parameters are clamped, never rejected: \<^verbatim>\<open>Simpson\<close> with a
  \<^verbatim>\<open>max_depth\<close> above 22 returns what it returns with 22, \<^verbatim>\<open>Lobatto\<close> with a \<^verbatim>\<open>max_depth\<close>
  above 8 what it returns with 8; \<^verbatim>\<open>Simpson\<close> with an \<^verbatim>\<open>epsilon\<close> below
  \<^verbatim>\<open>512 * numeric_epsilon\<close> returns what it returns with that value, and \<^verbatim>\<open>Lobatto\<close> with an
  \<^verbatim>\<open>epsilon\<close> below \<^verbatim>\<open>numeric_epsilon\<close> what it returns with \<^verbatim>\<open>numeric_epsilon\<close>.  The whole
  run is the same, the log included.
\<close>

theorem clamping:
  "(22 < md \<longrightarrow> Simpson fmt f a b eps md = Simpson fmt f a b eps 22)
   \<and> (8 < md \<longrightarrow> Lobatto fmt f a b eps md = Lobatto fmt f a b eps 8)
   \<and> (flt eps (fmul fmt (Finite 512) (numeric_epsilon fmt)) \<longrightarrow>
        Simpson fmt f a b eps md
          = Simpson fmt f a b (fmul fmt (Finite 512) (numeric_epsilon fmt)) md)
   \<and> (flt eps (numeric_epsilon fmt) \<longrightarrow>
        Lobatto fmt f a b eps md = Lobatto fmt f a b (numeric_epsilon fmt) md)"
proof (intro conjI impI)
  assume "22 < md"
  then have "min md 22 = min 22 (22 :: 8 word)" by simp
  then show "Simpson fmt f a b eps md = Simpson fmt f a b eps 22"
    unfolding Simpson_def by simp
next
  assume "8 < md"
  then have "min md 8 = min 8 (8 :: 8 word)" by simp
  then show "Lobatto fmt f a b eps md = Lobatto fmt f a b eps 8"
    unfolding Lobatto_def by simp
next
  assume "flt eps (fmul fmt (Finite 512) (numeric_epsilon fmt))"
  then show "Simpson fmt f a b eps md
      = Simpson fmt f a b (fmul fmt (Finite 512) (numeric_epsilon fmt)) md"
    unfolding Simpson_def by (simp add: fmax_below fmax_same)
next
  assume "flt eps (numeric_epsilon fmt)"
  then show "Lobatto fmt f a b eps md = Lobatto fmt f a b (numeric_epsilon fmt) md"
    unfolding Lobatto_def by (simp add: fmax_below fmax_same)
qed

theorem clamping_witness:
  "(22 :: 8 word) < 50 \<and> (8 :: 8 word) < 50
   \<and> flt (Finite (1 / 2 ^ 80)) (fmul demo (Finite 512) (numeric_epsilon demo))
   \<and> flt (Finite (1 / 2 ^ 80)) (numeric_epsilon demo)
   \<and> Simpson demo func_poly (Finite 1) (Finite 4) (Finite (1 / 2 ^ 80)) 50
       = Simpson demo func_poly (Finite 1) (Finite 4) (Finite (1 / 2 ^ 80)) 22
   \<and> Lobatto demo func_poly (Finite 1) (Finite 4) (Finite (1 / 2 ^ 80)) 50
       = Lobatto demo func_poly (Finite 1) (Finite 4) (Finite (1 / 2 ^ 80)) 8
   \<and> Simpson demo func_poly (Finite 1) (Finite 4) (Finite (1 / 2 ^ 80)) 50
       = Simpson demo func_poly (Finite 1) (Finite 4)
           (fmul demo (Finite 512) (numeric_epsilon demo)) 50
   \<and> Lobatto demo func_poly (Finite 1) (Finite 4) (Finite (1 / 2 ^ 80)) 50
       = Lobatto demo func_poly (Finite 1) (Finite 4) (numeric_epsilon demo) 50"
proof -
  have h1: "(22 :: 8 word) < 50" and h2: "(8 :: 8 word) < 50" by simp_all
  have h3: "flt (Finite (1 / 2 ^ 80)) (fmul demo (Finite 512) (numeric_epsilon demo))"
    by (simp add: demo_def demo_rnd_small)
  have h4: "flt (Finite (1 / 2 ^ 80)) (numeric_epsilon demo)"
    by (simp add: demo_def)
  show ?thesis
    using h1 h2 h3 h4
      clamping [of 50 demo func_poly "Finite 1" "Finite 4" "Finite (1 / 2 ^ 80)"]
    by blast
qed

section \<open>Termination and the number of evaluations\<close>

lemma four_le_power: "(4::nat) \<le> 2 ^ (k + 2)"
  using power_increasing [of 2 "k + 2" "2::nat"] by simp

lemma six_le_power: "(6::nat) \<le> 6 ^ (k + 1)"
  using power_increasing [of 1 "k + 1" "6::nat"] by simp

lemma few_evals_Simpson: "n \<le> 2 \<Longrightarrow> n + 2 \<le> (2::nat) ^ (k + 2)"
  using four_le_power [of k] by linarith

lemma few_evals_Lobatto: "n \<le> 5 \<Longrightarrow> n + 1 \<le> (6::nat) ^ (k + 1)"
  using six_le_power [of k] by linarith

lemma Simpson_recursive_count:
  assumes "Simpson_recursive fmt md f s m e eps d = Some r" "md < 255"
  shows "d \<le> md \<longrightarrow> length (evals (snd r)) + 2 \<le> 2 ^ (unat md - unat d + 2)"
  using assms(1)
proof (induction rule: Simpson_recursive_induct)
  case (stop s m e eps d)
  show ?case by (intro impI few_evals_Simpson) simp
next
  case (nonfinite s m e eps d L R)
  show ?case by (intro impI few_evals_Simpson) simp
next
  case (accept s m e eps d L R)
  show ?case by (intro impI few_evals_Simpson) simp
next
  case (split s m e eps d L R l r)
  show ?case
  proof
    assume d: "d \<le> md"
    from split(7) have le: "d + 1 \<le> md" by simp
    note k = word8_depth_step [OF d assms(2) split(7)]
    from split(10) le have "length (evals (snd l)) + 2 \<le> 2 ^ (unat md - unat (d + 1) + 2)"
      by blast
    moreover from split(11) le
    have "length (evals (snd r)) + 2 \<le> 2 ^ (unat md - unat (d + 1) + 2)"
      by blast
    ultimately show "length (evals (snd (fadd fmt (fst l) (fst r),
        [Eval (x L), Eval (x R), Split (x s) (x e) (d + 1)] @ snd l @ snd r))) + 2
        \<le> 2 ^ (unat md - unat d + 2)"
      unfolding k by simp
  qed
qed

lemma Lobatto_samples_evals [simp]: "length (evals (Lobatto_samples fmt f s e)) = 5"
  by (simp add: Lobatto_samples_def)

lemma Lobatto_recursive_count:
  assumes "Lobatto_recursive fmt md eps f s e d = Some r" "md < 255"
  shows "d \<le> md \<longrightarrow> length (evals (snd r)) + 1 \<le> 6 ^ (unat md - unat d + 1)"
  using assms(1)
proof (induction rule: Lobatto_recursive_induct)
  case (nonfinite s e d)
  show ?case by (intro impI few_evals_Lobatto) simp
next
  case (final s e d)
  show ?case by (intro impI few_evals_Lobatto) simp
next
  case (converged s e d)
  show ?case by (intro impI few_evals_Lobatto) simp
next
  case (split s e d p2 p3 p4 p5 p6 r1 r2 r3 r4 r5 r6)
  show ?case
  proof
    assume d: "d \<le> md"
    from split(3) have le: "d + 1 \<le> md" by simp
    note k = word8_depth_step [OF d assms(2) split(3)]
    let ?B = "(6::nat) ^ (unat md - unat (d + 1) + 1)"
    have "length (evals (snd r1)) + 1 \<le> ?B" "length (evals (snd r2)) + 1 \<le> ?B"
      "length (evals (snd r3)) + 1 \<le> ?B" "length (evals (snd r4)) + 1 \<le> ?B"
      "length (evals (snd r5)) + 1 \<le> ?B" "length (evals (snd r6)) + 1 \<le> ?B"
      using split(16-21) le by blast+
    then show "length (evals (snd (fadd fmt (fadd fmt (fadd fmt (fadd fmt (fadd fmt (fst r1) (fst r2)) (fst r3))
                 (fst r4)) (fst r5)) (fst r6),
              Lobatto_samples fmt f s e @ [Split (x s) (x e) (d + 1)]
                @ snd r1 @ snd r2 @ snd r3 @ snd r4 @ snd r5 @ snd r6))) + 1
        \<le> 6 ^ (unat md - unat d + 1)"
      unfolding k by simp
  qed
qed

lemma clamp_below_255: "min md (22 :: 8 word) < 255" "min md (8 :: 8 word) < 255"
proof -
  have "min md 22 \<le> (22 :: 8 word)" "min md 8 \<le> (8 :: 8 word)" by simp_all
  moreover have "(22 :: 8 word) < 255" "(8 :: 8 word) < 255" by simp_all
  ultimately show "min md (22 :: 8 word) < 255" "min md (8 :: 8 word) < 255"
    by (blast intro: order_le_less_trans)+
qed

text \<open>
  Claim C5, as amended.  For every format, integrand, bounds, tolerance and
  \<^verbatim>\<open>max_depth\<close>, \<^verbatim>\<open>Simpson\<close> and \<^verbatim>\<open>Lobatto\<close> return.  With \<open>n\<close> the clamped
  \<^verbatim>\<open>max_depth\<close> (at most 22 for \<^verbatim>\<open>Simpson\<close>, at most 8 for \<^verbatim>\<open>Lobatto\<close>), \<^verbatim>\<open>Simpson\<close> calls
  the integrand at most \<open>2\<^sup>n\<^sup>+\<^sup>2 + 1\<close> times and \<^verbatim>\<open>Lobatto\<close> at most \<open>6\<^sup>n\<^sup>+\<^sup>1 + 1\<close> times.
\<close>

theorem returns_with_bounded_evaluations:
  "(\<exists>r. Simpson fmt f a b eps md = Some r
        \<and> length (evals (snd r)) \<le> 2 ^ (unat (min md 22) + 2) + 1)
   \<and> (\<exists>r. Lobatto fmt f a b eps md = Some r
        \<and> length (evals (snd r)) \<le> 6 ^ (unat (min md 8) + 1) + 1)"
proof
  define a' where "a' = (if flt b a then b else a)"
  define b' where "b' = (if flt b a then a else b)"
  define s :: Data_S where "s = \<lparr> x = a', y = f a', area = Finite 0 \<rparr>"
  define e :: Data_S where "e = \<lparr> x = b', y = f b', area = Finite 0 \<rparr>"
  define m where "m = evaluate fmt f s e"
  define ep where "ep = fmax eps (fmul fmt (Finite 512) (numeric_epsilon fmt))"
  have S: "Simpson fmt f a b eps md =
     (if \<not> isfinite (y s) \<or> \<not> isfinite (y e) \<or> \<not> isfinite (y m)
      then Some (NaN, [Eval a', Eval b', Eval (x m)])
      else do { r \<leftarrow> Simpson_recursive fmt (min md 22) f s m e ep 0;
                Some (fst r, [Eval a', Eval b', Eval (x m)] @ snd r) })"
    by (simp add: Simpson_def a'_def b'_def s_def e_def m_def ep_def Let_def)
  note four = four_le_power [of "unat (min md 22)"]
  have "\<exists>r. Simpson_recursive fmt (min md 22) f s m e ep 0 = Some r"
    by (rule Simpson_recursive_returns [OF clamp_below_255(1)]) simp
  then obtain r where r: "Simpson_recursive fmt (min md 22) f s m e ep 0 = Some r" ..
  from Simpson_recursive_count [OF r clamp_below_255(1)]
  have "length (evals (snd r)) + 2 \<le> 2 ^ (unat (min md 22) + 2)" by simp
  with four show "\<exists>r. Simpson fmt f a b eps md = Some r
        \<and> length (evals (snd r)) \<le> 2 ^ (unat (min md 22) + 2) + 1"
    unfolding S by (simp add: r)
next
  define a' where "a' = (if flt b a then b else a)"
  define b' where "b' = (if flt b a then a else b)"
  define s :: Data where "s = \<lparr> x = a', y = f a' \<rparr>"
  define e :: Data where "e = \<lparr> x = b', y = f b' \<rparr>"
  define ep where "ep = fmax eps (numeric_epsilon fmt)"
  have L: "Lobatto fmt f a b eps md =
     (if \<not> isfinite (y s) \<or> \<not> isfinite (y e)
      then Some (NaN, [Eval a', Eval b'])
      else do { r \<leftarrow> Lobatto_recursive fmt (min md 8) ep f s e 0;
                Some (fst r, [Eval a', Eval b'] @ snd r) })"
    by (simp add: Lobatto_def a'_def b'_def s_def e_def ep_def Let_def)
  note six = six_le_power [of "unat (min md 8)"]
  have "\<exists>r. Lobatto_recursive fmt (min md 8) ep f s e 0 = Some r"
    by (rule Lobatto_recursive_returns [OF clamp_below_255(2)]) simp
  then obtain r where r: "Lobatto_recursive fmt (min md 8) ep f s e 0 = Some r" ..
  from Lobatto_recursive_count [OF r clamp_below_255(2)]
  have "length (evals (snd r)) + 1 \<le> 6 ^ (unat (min md 8) + 1)" by simp
  with six show "\<exists>r. Lobatto fmt f a b eps md = Some r
        \<and> length (evals (snd r)) \<le> 6 ^ (unat (min md 8) + 1) + 1"
    unfolding L by (simp add: r)
qed

theorem returns_with_bounded_evaluations_witness:
  "(\<exists>r. Simpson demo func_poly (Finite 1) (Finite 4) (Finite (1 / 2 ^ 80)) 0 = Some r
        \<and> length (evals (snd r)) \<le> 5)
   \<and> (\<exists>r. Lobatto demo func_poly (Finite 1) (Finite 4) (Finite (1 / 2 ^ 80)) 0 = Some r
        \<and> length (evals (snd r)) \<le> 7)"
  using returns_with_bounded_evaluations
    [of demo func_poly "Finite 1" "Finite 4" "Finite (1 / 2 ^ 80)" 0]
  by simp

text \<open>
  Claim C5 as stated bounds the evaluations by \<open>2\<close> (for \<^verbatim>\<open>Lobatto\<close>, \<open>6\<close>) to the power
  \<^verbatim>\<open>max_depth\<close>.  With \<^verbatim>\<open>max_depth = 0\<close> that is one evaluation; \<^verbatim>\<open>Simpson\<close> makes five on
  \<^verbatim>\<open>func_poly\<close> over \<open>[1, 4]\<close> (three before the recursion, two in its only step) and
  \<^verbatim>\<open>Lobatto\<close> seven.
\<close>

theorem evaluation_bound_counterexample:
  "evaluations (Simpson demo func_poly (Finite 1) (Finite 4) (Finite (1 / 2 ^ 80)) 0) = Some 5
   \<and> \<not> (5 :: nat) \<le> 2 ^ unat (0 :: 8 word)
   \<and> evaluations (Lobatto demo func_poly (Finite 1) (Finite 4) (Finite (1 / 2 ^ 80)) 0) = Some 7
   \<and> \<not> (7 :: nat) \<le> 6 ^ unat (0 :: 8 word)"
proof -
  have "evaluations (Simpson demo func_poly (Finite 1) (Finite 4) (Finite (1 / 2 ^ 80)) 0) = Some 5"
    by (simp add: evaluations_def Simpson_def evaluate_def Simpson_recursive.simps func_poly_def
          demo_simps demo_rnd_small fsub_def fmax_def numeric_interval_def Let_def)
  moreover
  have "evaluations (Lobatto demo func_poly (Finite 1) (Finite 4) (Finite (1 / 2 ^ 80)) 0) = Some 7"
    by (simp add: evaluations_def Lobatto_def Lobatto_recursive.simps func_poly_def
          node_kronrod_def node_lobatto_def demo_sqrt_def
          demo_simps demo_rnd_small fsub_def fmax_def numeric_interval_def Let_def)
  ultimately show ?thesis by simp
qed

section \<open>Non-finite samples\<close>

lemma evaluate_y: "y (evaluate fmt f s e) = f (x (evaluate fmt f s e))"
  by (simp add: evaluate_def Let_def)

lemma Simpson_recursive_poison:
  assumes "Simpson_recursive fmt md f s m e eps d = Some r"
  shows "(\<exists>u \<in> set (evals (snd r)). \<not> isfinite (f u)) \<longrightarrow> fst r = NaN"
  using assms
proof (induction rule: Simpson_recursive_induct)
  case (stop s m e eps d)
  show ?case by simp
next
  case (nonfinite s m e eps d L R)
  show ?case by simp
next
  case (accept s m e eps d L R)
  then show ?case by (simp add: evaluate_y)
next
  case (split s m e eps d L R l r)
  then show ?case by (auto simp: evaluate_y)
qed

lemma Simpson_unfold:
  "Simpson fmt f a b eps md =
     (let a' = (if flt b a then b else a); b' = (if flt b a then a else b);
          s = \<lparr> x = a', y = f a', area = Finite 0 \<rparr>;
          e = \<lparr> x = b', y = f b', area = Finite 0 \<rparr>;
          m = evaluate fmt f s e
      in if \<not> isfinite (f a') \<or> \<not> isfinite (f b') \<or> \<not> isfinite (f (x m))
         then Some (NaN, [Eval a', Eval b', Eval (x m)])
         else do {
           r \<leftarrow> Simpson_recursive fmt (min md 22) f s m e
                  (fmax eps (fmul fmt (Finite 512) (numeric_epsilon fmt))) 0;
           Some (fst r, [Eval a', Eval b', Eval (x m)] @ snd r) })"
  by (simp add: Simpson_def Let_def evaluate_y)

lemma Lobatto_unfold:
  "Lobatto fmt f a b eps md =
     (let a' = (if flt b a then b else a); b' = (if flt b a then a else b)
      in if \<not> isfinite (f a') \<or> \<not> isfinite (f b')
         then Some (NaN, [Eval a', Eval b'])
         else do {
           r \<leftarrow> Lobatto_recursive fmt (min md 8) (fmax eps (numeric_epsilon fmt)) f
                  (sample f a') (sample f b') 0;
           Some (fst r, [Eval a', Eval b'] @ snd r) })"
  by (simp add: Lobatto_def Let_def sample_def)

lemma area_kronrod_finite:
  assumes "isfinite (area_kronrod fmt f s e)"
  shows "isfinite (y (Lobatto_p2 fmt f s e))" "isfinite (y (Lobatto_p3 fmt f s e))"
    "isfinite (y (Lobatto_p4 fmt f s e))" "isfinite (y (Lobatto_p5 fmt f s e))"
    "isfinite (y (Lobatto_p6 fmt f s e))" "isfinite (y s)" "isfinite (y e)"
  using assms unfolding area_kronrod_def
  by (blast dest: isfinite_fmul isfinite_fadd)+

lemma sample_simps [simp]: "x (sample f u) = u" "y (sample f u) = f u"
  by (simp_all add: sample_def)

lemma Lobatto_point_y:
  "y (Lobatto_p2 fmt f s e) = f (x (Lobatto_p2 fmt f s e))"
  "y (Lobatto_p3 fmt f s e) = f (x (Lobatto_p3 fmt f s e))"
  "y (Lobatto_p4 fmt f s e) = f (x (Lobatto_p4 fmt f s e))"
  "y (Lobatto_p5 fmt f s e) = f (x (Lobatto_p5 fmt f s e))"
  "y (Lobatto_p6 fmt f s e) = f (x (Lobatto_p6 fmt f s e))"
  by (simp_all add: Lobatto_p2_def Lobatto_p3_def Lobatto_p4_def Lobatto_p5_def Lobatto_p6_def)

lemma Lobatto_samples_finite:
  assumes "isfinite (area_kronrod fmt f s e)" "u \<in> set (evals (Lobatto_samples fmt f s e))"
  shows "isfinite (f u)"
  using assms(2) area_kronrod_finite(1-5) [OF assms(1)]
  by (auto simp: Lobatto_samples_def Lobatto_point_y)

lemma Lobatto_recursive_poison:
  assumes "Lobatto_recursive fmt md eps f s e d = Some r"
  shows "(\<exists>u \<in> set (evals (snd r)). \<not> isfinite (f u)) \<longrightarrow> fst r = NaN"
  using assms
proof (induction rule: Lobatto_recursive_induct)
  case (nonfinite s e d)
  show ?case by simp
next
  case (final s e d)
  then show ?case by (auto dest: Lobatto_samples_finite)
next
  case (converged s e d)
  then show ?case by (auto dest: Lobatto_samples_finite)
next
  case (split s e d p2 p3 p4 p5 p6 r1 r2 r3 r4 r5 r6)
  show ?case
  proof
    assume "\<exists>u\<in>set (evals (snd (fadd fmt (fadd fmt (fadd fmt (fadd fmt (fadd fmt (fst r1) (fst r2)) (fst r3))
                 (fst r4)) (fst r5)) (fst r6),
              Lobatto_samples fmt f s e @ [Split (x s) (x e) (d + 1)]
                @ snd r1 @ snd r2 @ snd r3 @ snd r4 @ snd r5 @ snd r6))). \<not> isfinite (f u)"
    then obtain u where u: "\<not> isfinite (f u)" and
      mem: "u \<in> set (evals (Lobatto_samples fmt f s e)) \<or> u \<in> set (evals (snd r1))
         \<or> u \<in> set (evals (snd r2)) \<or> u \<in> set (evals (snd r3)) \<or> u \<in> set (evals (snd r4))
         \<or> u \<in> set (evals (snd r5)) \<or> u \<in> set (evals (snd r6))"
      by auto
    from u Lobatto_samples_finite [OF split(1)]
    have "u \<notin> set (evals (Lobatto_samples fmt f s e))" by blast
    with mem u split(16-21)
    have "fst r1 = NaN \<or> fst r2 = NaN \<or> fst r3 = NaN \<or> fst r4 = NaN \<or> fst r5 = NaN \<or> fst r6 = NaN"
      by blast
    then show "fst (fadd fmt (fadd fmt (fadd fmt (fadd fmt (fadd fmt (fst r1) (fst r2)) (fst r3))
                 (fst r4)) (fst r5)) (fst r6),
              Lobatto_samples fmt f s e @ [Split (x s) (x e) (d + 1)]
                @ snd r1 @ snd r2 @ snd r3 @ snd r4 @ snd r5 @ snd r6) = NaN"
      by (elim disjE) simp_all
  qed
qed

text \<open>
  Claim C3.  For every integrand and bounds, \<^verbatim>\<open>Simpson\<close> and \<^verbatim>\<open>Lobatto\<close> return; the run
  evaluates the integrand at \<open>a\<close> and at \<open>b\<close>; and if the integrand is not finite (an
  infinity or NaN) at any point the run evaluated it at, the value returned is NaN.
\<close>

theorem nonfinite_sample_poisons:
  "(\<exists>v tr. Simpson fmt f a b eps md = Some (v, tr)
        \<and> a \<in> set (evals tr) \<and> b \<in> set (evals tr)
        \<and> ((\<exists>u \<in> set (evals tr). \<not> isfinite (f u)) \<longrightarrow> v = NaN))
   \<and> (\<exists>v tr. Lobatto fmt f a b eps md = Some (v, tr)
        \<and> a \<in> set (evals tr) \<and> b \<in> set (evals tr)
        \<and> ((\<exists>u \<in> set (evals tr). \<not> isfinite (f u)) \<longrightarrow> v = NaN))"
proof
  define a' where "a' = (if flt b a then b else a)"
  define b' where "b' = (if flt b a then a else b)"
  define s :: Data_S where "s = \<lparr> x = a', y = f a', area = Finite 0 \<rparr>"
  define e :: Data_S where "e = \<lparr> x = b', y = f b', area = Finite 0 \<rparr>"
  define m where "m = evaluate fmt f s e"
  define ep where "ep = fmax eps (fmul fmt (Finite 512) (numeric_epsilon fmt))"
  have ab: "a \<in> {a', b'}" "b \<in> {a', b'}" by (auto simp: a'_def b'_def)
  have S: "Simpson fmt f a b eps md =
     (if \<not> isfinite (f a') \<or> \<not> isfinite (f b') \<or> \<not> isfinite (f (x m))
      then Some (NaN, [Eval a', Eval b', Eval (x m)])
      else do { r \<leftarrow> Simpson_recursive fmt (min md 22) f s m e ep 0;
                Some (fst r, [Eval a', Eval b', Eval (x m)] @ snd r) })"
    by (simp add: Simpson_unfold a'_def b'_def s_def e_def m_def ep_def Let_def)
  have "\<exists>r. Simpson_recursive fmt (min md 22) f s m e ep 0 = Some r"
    by (rule Simpson_recursive_returns [OF clamp_below_255(1)]) simp
  then obtain r where r: "Simpson_recursive fmt (min md 22) f s m e ep 0 = Some r" ..
  note p = Simpson_recursive_poison [OF r]
  show "\<exists>v tr. Simpson fmt f a b eps md = Some (v, tr)
        \<and> a \<in> set (evals tr) \<and> b \<in> set (evals tr)
        \<and> ((\<exists>u \<in> set (evals tr). \<not> isfinite (f u)) \<longrightarrow> v = NaN)"
  proof (cases "\<not> isfinite (f a') \<or> \<not> isfinite (f b') \<or> \<not> isfinite (f (x m))")
    case True
    with ab show ?thesis unfolding S by auto
  next
    case False
    with ab p show ?thesis unfolding S by (auto simp: r)
  qed
next
  define a' where "a' = (if flt b a then b else a)"
  define b' where "b' = (if flt b a then a else b)"
  define ep where "ep = fmax eps (numeric_epsilon fmt)"
  have ab: "a \<in> {a', b'}" "b \<in> {a', b'}" by (auto simp: a'_def b'_def)
  have L: "Lobatto fmt f a b eps md =
     (if \<not> isfinite (f a') \<or> \<not> isfinite (f b')
      then Some (NaN, [Eval a', Eval b'])
      else do { r \<leftarrow> Lobatto_recursive fmt (min md 8) ep f (sample f a') (sample f b') 0;
                Some (fst r, [Eval a', Eval b'] @ snd r) })"
    by (simp add: Lobatto_unfold a'_def b'_def ep_def Let_def)
  have "\<exists>r. Lobatto_recursive fmt (min md 8) ep f (sample f a') (sample f b') 0 = Some r"
    by (rule Lobatto_recursive_returns [OF clamp_below_255(2)]) simp
  then obtain r where r: "Lobatto_recursive fmt (min md 8) ep f (sample f a') (sample f b') 0 = Some r" ..
  note p = Lobatto_recursive_poison [OF r]
  show "\<exists>v tr. Lobatto fmt f a b eps md = Some (v, tr)
        \<and> a \<in> set (evals tr) \<and> b \<in> set (evals tr)
        \<and> ((\<exists>u \<in> set (evals tr). \<not> isfinite (f u)) \<longrightarrow> v = NaN)"
  proof (cases "\<not> isfinite (f a') \<or> \<not> isfinite (f b')")
    case True
    with ab show ?thesis unfolding L by auto
  next
    case False
    with ab p show ?thesis unfolding L by (auto simp: r)
  qed
qed

text \<open>
  On \<open>[0, 2]\<close> \<^verbatim>\<open>Simpson\<close> meets the pole of \<^verbatim>\<open>func_pole\<close> one level down, in the left half;
  \<^verbatim>\<open>Lobatto\<close> meets it on \<open>[0, 1/2]\<close> at the midpoint.
\<close>

theorem nonfinite_sample_poisons_witness:
  "\<not> isfinite (func_pole (Finite (1 / 4)))
   \<and> (\<exists>tr. Simpson demo func_pole (Finite 0) (Finite 2) (Finite (1 / 2 ^ 20)) 1 = Some (NaN, tr)
          \<and> Finite (1 / 4) \<in> set (evals tr))
   \<and> (\<exists>tr. Lobatto demo func_pole (Finite 0) (Finite (1 / 2)) (Finite (1 / 2 ^ 20)) 8
            = Some (NaN, tr)
          \<and> Finite (1 / 4) \<in> set (evals tr))"
proof -
  have pole: "\<not> isfinite (func_pole (Finite (1 / 4)))"
    by (simp add: func_pole_def fsub_def demo_simps demo_rnd_small)
  have "\<exists>v. Simpson demo func_pole (Finite 0) (Finite 2) (Finite (1 / 2 ^ 20)) 1
      = Some (v, [Eval (Finite 0), Eval (Finite 2), Eval (Finite 1),
          Eval (Finite (1 / 2)), Eval (Finite (3 / 2)),
          Split (Finite 0) (Finite 2) 1, Eval (Finite (1 / 4)),
          Eval (Finite (3 / 4)), Eval (Finite (5 / 4)), Eval (Finite (7 / 4))])"
    by (simp add: Simpson_def evaluate_def Simpson_recursive.simps func_pole_def
          demo_simps demo_rnd_small fsub_def fmax_def numeric_interval_def Let_def)
  moreover
  have "\<exists>v. Lobatto demo func_pole (Finite 0) (Finite (1 / 2)) (Finite (1 / 2 ^ 20)) 8
      = Some (v, [Eval (Finite 0), Eval (Finite (1 / 2)),
          Eval (Finite (10360559 / 225839040)), Eval (Finite (682 / 4935)),
          Eval (Finite (1 / 4)), Eval (Finite (3571 / 9870)),
          Eval (Finite (102558961 / 225839040))])"
    by (simp add: Lobatto_def Lobatto_recursive.simps func_pole_def
          node_kronrod_def node_lobatto_def demo_sqrt_def
          demo_simps demo_rnd_small fsub_def fmax_def numeric_interval_def Let_def)
  ultimately show ?thesis
    using pole
      nonfinite_sample_poisons [of demo func_pole "Finite 0" "Finite 2" "Finite (1 / 2 ^ 20)" 1]
      nonfinite_sample_poisons [of demo func_pole "Finite 0" "Finite (1 / 2)"
        "Finite (1 / 2 ^ 20)" 8]
    by auto
qed

section \<open>Reversed bounds\<close>

lemma flt_NaN [simp]: "\<not> flt NaN v" "\<not> flt u NaN"
  by (cases v; simp) (cases u; simp)

lemma evaluate_NaN:
  assumes "x s = NaN \<or> x e = NaN"
  shows "x (evaluate fmt f s e) = NaN" "area (evaluate fmt f s e) = NaN"
  using assms by (auto simp: evaluate_def Let_def)

lemma Simpson_recursive_NaN:
  assumes "Simpson_recursive fmt md f s m e eps d = Some r"
  shows "(x s = NaN \<or> x e = NaN) \<and> x m = NaN \<and> area m = NaN \<longrightarrow> fst r = NaN"
  using assms
proof (induction rule: Simpson_recursive_induct)
  case (stop s m e eps d)
  show ?case by simp
next
  case (nonfinite s m e eps d L R)
  show ?case by simp
next
  case (accept s m e eps d L R)
  then show ?case by (auto simp: Simpson_fine_def evaluate_NaN)
next
  case (split s m e eps d L R l r)
  then show ?case by (auto simp: evaluate_NaN)
qed

lemma Simpson_NaN_bound:
  assumes "a = NaN \<or> b = NaN"
  shows "map_option fst (Simpson fmt f a b eps md) = Some NaN"
proof -
  define s :: Data_S where "s = \<lparr> x = a, y = f a, area = Finite 0 \<rparr>"
  define e :: Data_S where "e = \<lparr> x = b, y = f b, area = Finite 0 \<rparr>"
  define m where "m = evaluate fmt f s e"
  define ep where "ep = fmax eps (fmul fmt (Finite 512) (numeric_epsilon fmt))"
  from assms have nolt: "\<not> flt b a" by auto
  have S: "Simpson fmt f a b eps md =
     (if \<not> isfinite (f a) \<or> \<not> isfinite (f b) \<or> \<not> isfinite (f (x m))
      then Some (NaN, [Eval a, Eval b, Eval (x m)])
      else do { r \<leftarrow> Simpson_recursive fmt (min md 22) f s m e ep 0;
                Some (fst r, [Eval a, Eval b, Eval (x m)] @ snd r) })"
    using nolt by (simp add: Simpson_unfold s_def e_def m_def ep_def Let_def)
  have "\<exists>r. Simpson_recursive fmt (min md 22) f s m e ep 0 = Some r"
    by (rule Simpson_recursive_returns [OF clamp_below_255(1)]) simp
  then obtain r where r: "Simpson_recursive fmt (min md 22) f s m e ep 0 = Some r" ..
  from assms have "x s = NaN \<or> x e = NaN" by (simp add: s_def e_def)
  with Simpson_recursive_NaN [OF r] evaluate_NaN [of s e fmt f]
  have "fst r = NaN" by (simp add: m_def)
  then show ?thesis unfolding S by (simp add: r)
qed

lemma Lobatto_NaN_bound:
  assumes "a = NaN \<or> b = NaN"
  shows "map_option fst (Lobatto fmt f a b eps md) = Some NaN"
proof -
  from assms have nolt: "\<not> flt b a" by auto
  from assms have "Lobatto_h fmt (sample f a) (sample f b) = NaN"
    by (auto simp: Lobatto_h_def)
  then have "\<not> isfinite (area_kronrod fmt f (sample f a) (sample f b))"
    by (simp add: area_kronrod_def)
  then have "map_option fst (Lobatto_recursive fmt (min md 8) (fmax eps (numeric_epsilon fmt)) f
      (sample f a) (sample f b) 0) = Some NaN"
    by (subst Lobatto_recursive_unfold) simp
  then show ?thesis
    using nolt by (auto simp: Lobatto_unfold Let_def)
qed

text \<open>
  Claim C4, as amended.  For every integrand, tolerance and \<^verbatim>\<open>max_depth\<close>, and for all
  bounds \<open>a\<close> and \<open>b\<close> that are not the two zeros \<^verbatim>\<open>+0.0\<close> and \<^verbatim>\<open>-0.0\<close>, \<^verbatim>\<open>Simpson\<close> returns
  the same value for \<open>(a, b)\<close> and for \<open>(b, a)\<close>, and so does \<^verbatim>\<open>Lobatto\<close>: the bounds are
  put in order by swapping, and the result is not negated.  (When a bound is NaN nothing is
  swapped, and both calls return NaN.)  The values returned are compared, not the logs.
\<close>

theorem reversed_bounds:
  "\<not> opposite_zeros a b \<longrightarrow>
     map_option fst (Simpson fmt f a b eps md) = map_option fst (Simpson fmt f b a eps md)
     \<and> map_option fst (Lobatto fmt f a b eps md) = map_option fst (Lobatto fmt f b a eps md)"
proof
  assume "\<not> opposite_zeros a b"
  then consider (lt) "flt a b" | (gt) "flt b a" | (eq) "a = b" | (nan) "a = NaN \<or> b = NaN"
    using flt_cases [of a b] by blast
  then show "map_option fst (Simpson fmt f a b eps md) = map_option fst (Simpson fmt f b a eps md)
     \<and> map_option fst (Lobatto fmt f a b eps md) = map_option fst (Lobatto fmt f b a eps md)"
  proof cases
    case lt
    then have "\<not> flt b a" by (rule flt_asym)
    with lt show ?thesis by (simp add: Simpson_unfold Lobatto_unfold)
  next
    case gt
    then have "\<not> flt a b" by (rule flt_asym)
    with gt show ?thesis by (simp add: Simpson_unfold Lobatto_unfold)
  next
    case eq
    then show ?thesis by simp
  next
    case nan
    then have nan': "b = NaN \<or> a = NaN" by blast
    show ?thesis
      by (simp add: Simpson_NaN_bound [OF nan] Simpson_NaN_bound [OF nan']
            Lobatto_NaN_bound [OF nan] Lobatto_NaN_bound [OF nan'])
  qed
qed

theorem reversed_bounds_witness:
  "\<not> opposite_zeros (Finite 4) (Finite 1)
   \<and> map_option fst (Simpson demo func_poly (Finite 4) (Finite 1) (Finite (1 / 2 ^ 80)) 0)
     = Some (Finite 81)
   \<and> map_option fst (Lobatto demo func_poly (Finite 4) (Finite 1) (Finite (1 / 2 ^ 80)) 0)
     = Some (Finite (3881703765953250226929 / 47922267042241928000))"
proof -
  have z: "\<not> opposite_zeros (Finite 4) (Finite 1)"
    by (simp add: opposite_zeros_def)
  have "map_option fst (Simpson demo func_poly (Finite 1) (Finite 4) (Finite (1 / 2 ^ 80)) 0)
     = Some (Finite 81)"
    by (simp add: Simpson_def evaluate_def Simpson_recursive.simps func_poly_def
          demo_simps demo_rnd_small fsub_def fmax_def numeric_interval_def Let_def)
  moreover
  have "map_option fst (Lobatto demo func_poly (Finite 1) (Finite 4) (Finite (1 / 2 ^ 80)) 0)
     = Some (Finite (3881703765953250226929 / 47922267042241928000))"
    by (simp add: Lobatto_def Lobatto_recursive.simps func_poly_def
          node_kronrod_def node_lobatto_def demo_sqrt_def
          demo_simps demo_rnd_small fsub_def fmax_def numeric_interval_def Let_def)
  ultimately show ?thesis
    using z reversed_bounds [of "Finite 4" "Finite 1" demo func_poly "Finite (1 / 2 ^ 80)" 0]
    by simp
qed

text \<open>
  Claim C4 as stated speaks of all bounds.  The bounds \<^verbatim>\<open>-0.0\<close> and \<^verbatim>\<open>+0.0\<close> compare equal,
  so neither order is swapped, and an integrand can tell them apart.  With
  \<^verbatim>\<open>std::signbit(x) ? -LDBL_MAX : LDBL_MAX / 4\<close> the call on \<open>(-0.0, +0.0)\<close> adds
  \<open>-LDBL_MAX + 4 (LDBL_MAX / 4)\<close>, which is \<open>0\<close>, then \<open>LDBL_MAX / 4\<close>, and returns the width
  \<open>0\<close> times that sum over 6, which is \<open>0\<close>; the call on \<open>(+0.0, -0.0)\<close> adds
  \<open>LDBL_MAX / 4 + 4 (LDBL_MAX / 4)\<close>, which overflows, and returns \<open>0\<close> times an infinity,
  which is NaN.
\<close>

theorem reversed_bounds_counterexample:
  "map_option fst (Simpson demo func_sign NZero (Finite 0) (Finite (1 / 2 ^ 80)) 0)
     = Some (Finite 0)
   \<and> map_option fst (Simpson demo func_sign (Finite 0) NZero (Finite (1 / 2 ^ 80)) 0)
     = Some NaN"
proof
  show "map_option fst (Simpson demo func_sign NZero (Finite 0) (Finite (1 / 2 ^ 80)) 0)
     = Some (Finite 0)"
    using ldbl_max_ge
    by (simp add: Simpson_def evaluate_def Simpson_recursive.simps func_sign_def
          demo_simps demo_rnd_def fsub_def fmax_def numeric_interval_def Let_def)
  show "map_option fst (Simpson demo func_sign (Finite 0) NZero (Finite (1 / 2 ^ 80)) 0)
     = Some NaN"
    using ldbl_max_ge
    by (simp add: Simpson_def evaluate_def Simpson_recursive.simps func_sign_def
          demo_simps demo_rnd_def fsub_def fmax_def numeric_interval_def Let_def)
qed

section \<open>What is subdivided, and how deep\<close>

lemma Simpson_recursive_splits:
  assumes "Simpson_recursive fmt md f s m e eps d = Some r"
  shows "\<forall>s' e' d'. Split s' e' d' \<in> set (snd r) \<longrightarrow>
           \<not> flt (fabs (fsub fmt e' s')) numeric_interval \<and> d' \<le> md"
  using assms
proof (induction rule: Simpson_recursive_induct)
  case (stop s m e eps d)
  show ?case by simp
next
  case (nonfinite s m e eps d L R)
  show ?case by simp
next
  case (accept s m e eps d L R)
  show ?case by simp
next
  case (split s m e eps d L R l r)
  from split(1) have "\<not> flt (fabs (fsub fmt (x e) (x s))) numeric_interval"
    by (simp add: Simpson_stop_def)
  moreover from split(7) have "d + 1 \<le> md" by simp
  ultimately show ?case using split(10,11) by auto
qed

lemma Lobatto_samples_no_split [simp]: "Split s' e' d' \<notin> set (Lobatto_samples fmt f s e)"
  by (simp add: Lobatto_samples_def)

lemma Lobatto_recursive_splits:
  assumes "Lobatto_recursive fmt md eps f s e d = Some r"
  shows "\<forall>s' e' d'. Split s' e' d' \<in> set (snd r) \<longrightarrow>
           \<not> flt (fabs (fdiv fmt (fsub fmt e' s') (Finite 2))) numeric_interval \<and> d' \<le> md"
  using assms
proof (induction rule: Lobatto_recursive_induct)
  case (nonfinite s e d)
  show ?case by simp
next
  case (final s e d)
  show ?case by simp
next
  case (converged s e d)
  show ?case by simp
next
  case (split s e d p2 p3 p4 p5 p6 r1 r2 r3 r4 r5 r6)
  from split(2) have "\<not> flt (fabs (fdiv fmt (fsub fmt (x e) (x s)) (Finite 2))) numeric_interval"
    by (simp add: Lobatto_h_def)
  moreover from split(3) have "d + 1 \<le> md" by simp
  ultimately show ?case using split(16-21) by auto
qed

text \<open>
  Claim C7.  In every run of \<^verbatim>\<open>Simpson\<close> and of \<^verbatim>\<open>Lobatto\<close>, a recursion step that goes
  on to call itself on sub-intervals (a \<open>Split\<close> in the log) works on an interval whose
  width is not below \<^verbatim>\<open>numeric_interval\<close>, and the depth it passes to those calls is at
  most the clamped \<^verbatim>\<open>max_depth\<close>.  \<^verbatim>\<open>Simpson\<close> tests the width itself.  \<^verbatim>\<open>Lobatto\<close> tests the
  half-width \<open>h\<close>; that the width is then not below \<^verbatim>\<open>numeric_interval\<close> either follows
  where halving contracts, as it does in binary floating point.
\<close>

theorem subdivision_invariant:
  "(Simpson fmt f a b eps md = Some (v, tr) \<and> Split s e d \<in> set tr \<longrightarrow>
      \<not> flt (fabs (fsub fmt e s)) numeric_interval \<and> d \<le> min md 22)
   \<and> (Lobatto fmt f a b eps md = Some (v, tr) \<and> Split s e d \<in> set tr \<longrightarrow>
      \<not> flt (fabs (fdiv fmt (fsub fmt e s) (Finite 2))) numeric_interval
      \<and> (halving_contracts fmt \<longrightarrow> \<not> flt (fabs (fsub fmt e s)) numeric_interval)
      \<and> d \<le> min md 8)"
proof (rule conjI; rule impI; elim conjE)
  assume run: "Simpson fmt f a b eps md = Some (v, tr)" and sp: "Split s e d \<in> set tr"
  from run obtain r s0 m0 e0 ep where
    r: "Simpson_recursive fmt (min md 22) f s0 m0 e0 ep 0 = Some r" and "Split s e d \<in> set (snd r)"
    using sp by (auto simp: Simpson_unfold Let_def split: if_splits bind_splits)
  with Simpson_recursive_splits [OF r]
  show "\<not> flt (fabs (fsub fmt e s)) numeric_interval \<and> d \<le> min md 22" by blast
next
  assume run: "Lobatto fmt f a b eps md = Some (v, tr)" and sp: "Split s e d \<in> set tr"
  from run obtain r s0 e0 ep where
    r: "Lobatto_recursive fmt (min md 8) ep f s0 e0 0 = Some r" and "Split s e d \<in> set (snd r)"
    using sp by (auto simp: Lobatto_unfold Let_def split: if_splits bind_splits)
  with Lobatto_recursive_splits [OF r]
  have *: "\<not> flt (fabs (fdiv fmt (fsub fmt e s) (Finite 2))) numeric_interval \<and> d \<le> min md 8"
    by blast
  then have "halving_contracts fmt \<longrightarrow> \<not> flt (fabs (fsub fmt e s)) numeric_interval"
    unfolding halving_contracts_def by blast
  with * show "\<not> flt (fabs (fdiv fmt (fsub fmt e s) (Finite 2))) numeric_interval
      \<and> (halving_contracts fmt \<longrightarrow> \<not> flt (fabs (fsub fmt e s)) numeric_interval)
      \<and> d \<le> min md 8" by blast
qed

lemma Lobatto_recursive_split_event:
  assumes "md < 255" "d \<le> md" "\<not> md < d + 1"
    and "isfinite (area_kronrod fmt f s e)"
    and "\<not> flt (fabs (Lobatto_h fmt s e)) numeric_interval"
    and "\<not> flt (fabs (fsub fmt (area_kronrod fmt f s e) (area_lobatto fmt f s e))) eps"
  shows "\<exists>v tr. Lobatto_recursive fmt md eps f s e d = Some (v, tr)
           \<and> Split (x s) (x e) (d + 1) \<in> set tr"
proof -
  from assms(3) have le: "d + 1 \<le> md" by simp
  note sub = Lobatto_recursive_returns [OF assms(1) le, of fmt eps f]
  obtain r1 where r1: "Lobatto_recursive fmt md eps f s (Lobatto_p2 fmt f s e) (d + 1) = Some r1"
    using sub by blast
  obtain r2 where r2: "Lobatto_recursive fmt md eps f (Lobatto_p2 fmt f s e) (Lobatto_p3 fmt f s e) (d + 1) = Some r2"
    using sub by blast
  obtain r3 where r3: "Lobatto_recursive fmt md eps f (Lobatto_p3 fmt f s e) (Lobatto_p4 fmt f s e) (d + 1) = Some r3"
    using sub by blast
  obtain r4 where r4: "Lobatto_recursive fmt md eps f (Lobatto_p4 fmt f s e) (Lobatto_p5 fmt f s e) (d + 1) = Some r4"
    using sub by blast
  obtain r5 where r5: "Lobatto_recursive fmt md eps f (Lobatto_p5 fmt f s e) (Lobatto_p6 fmt f s e) (d + 1) = Some r5"
    using sub by blast
  obtain r6 where r6: "Lobatto_recursive fmt md eps f (Lobatto_p6 fmt f s e) e (d + 1) = Some r6"
    using sub by blast
  show ?thesis
    using assms(3-6) by (subst Lobatto_recursive_unfold) (simp add: r1 r2 r3 r4 r5 r6)
qed

theorem subdivision_invariant_witness:
  "halving_contracts demo
   \<and> (\<exists>v tr. Simpson demo func_pole (Finite 0) (Finite 2) (Finite (1 / 2 ^ 20)) 1 = Some (v, tr)
         \<and> Split (Finite 0) (Finite 2) 1 \<in> set tr)
   \<and> (\<exists>v tr. Lobatto demo func_pole (Finite 0) (Finite 2) (Finite (1 / 2 ^ 20)) 1 = Some (v, tr)
         \<and> Split (Finite 0) (Finite 2) 1 \<in> set tr)
   \<and> \<not> flt (fabs (fsub demo (Finite 2) (Finite 0))) numeric_interval
   \<and> (1 :: 8 word) \<le> min 1 22 \<and> (1 :: 8 word) \<le> min 1 8"
proof -
  let ?eps = "Finite (1 / 2 ^ 20)"
  let ?s = "sample func_pole (Finite 0)" and ?e = "sample func_pole (Finite 2)"
  have S: "\<exists>v tr. Simpson demo func_pole (Finite 0) (Finite 2) ?eps 1 = Some (v, tr)
         \<and> Split (Finite 0) (Finite 2) 1 \<in> set tr"
    by (simp add: Simpson_def evaluate_def Simpson_recursive.simps func_pole_def
          demo_simps demo_rnd_small fsub_def fmax_def numeric_interval_def Let_def)
  have ends: "func_pole (Finite 0) = Finite 4" "func_pole (Finite 2) = Finite (4 / 7)"
    by (simp_all add: func_pole_def demo_simps demo_rnd_small fsub_def)
  have h: "Lobatto_h demo ?s ?e = Finite 1" and mid: "Lobatto_mid demo ?s ?e = Finite 1"
    by (simp_all add: Lobatto_h_def Lobatto_mid_def demo_simps demo_rnd_small fsub_def)
  have nodes: "node_kronrod demo = Finite (46099201 / 56459760)" "node_lobatto demo = Finite (2207 / 4935)"
    by (simp_all add: node_kronrod_def node_lobatto_def demo_sqrt_def demo_simps demo_rnd_small)
  have K: "isfinite (area_kronrod demo func_pole ?s ?e)"
    by (simp add: area_kronrod_def h mid nodes ends Lobatto_p2_def Lobatto_p3_def Lobatto_p4_def
          Lobatto_p5_def Lobatto_p6_def func_pole_def demo_simps demo_rnd_small fsub_def)
  have E: "\<not> flt (fabs (fsub demo (area_kronrod demo func_pole ?s ?e)
       (area_lobatto demo func_pole ?s ?e))) (fmax ?eps (numeric_epsilon demo))"
    by (simp add: area_kronrod_def area_lobatto_def h mid nodes ends Lobatto_p2_def Lobatto_p3_def
          Lobatto_p4_def Lobatto_p5_def Lobatto_p6_def func_pole_def demo_simps demo_rnd_small
          fsub_def fmax_def)
  have "\<exists>v tr. Lobatto_recursive demo 1 (fmax ?eps (numeric_epsilon demo)) func_pole ?s ?e 0
       = Some (v, tr) \<and> Split (x ?s) (x ?e) (0 + 1) \<in> set tr"
    by (rule Lobatto_recursive_split_event [OF _ _ _ K _ E])
       (simp_all add: h numeric_interval_def)
  then have L: "\<exists>v tr. Lobatto demo func_pole (Finite 0) (Finite 2) ?eps 1 = Some (v, tr)
         \<and> Split (Finite 0) (Finite 2) 1 \<in> set tr"
    by (auto simp: Lobatto_unfold ends Let_def)
  from S L halving_contracts_demo
    subdivision_invariant [of demo func_pole "Finite 0" "Finite 2" ?eps 1 _ _
      "Finite 0" "Finite 2" 1]
  show ?thesis by blast
qed

section \<open>One step of Simpson\<close>

text \<open>
  Claim C1, as amended.  A step of the recursion of \<^verbatim>\<open>Simpson\<close> does what the claim says,
  with one more case: when the step is not stopped by the tolerance or the width and one
  of the two new quarter-point samples is not finite, it returns NaN.
\<close>

theorem Simpson_step:
  "Simpson_value fmt md f s m e eps d =
     (if \<not> Simpson_stop fmt s e eps
         \<and> (\<not> isfinite (y (evaluate fmt f s m)) \<or> \<not> isfinite (y (evaluate fmt f m e)))
      then Some NaN
      else Simpson_step_claimed fmt md f s m e eps d)"
  unfolding Simpson_value_def [of fmt md f s m e eps d] Simpson_step_claimed_def
  by (subst Simpson_recursive_unfold)
     (auto simp: Simpson_value_def Simpson_stop_def Simpson_error_def Simpson_fine_def Let_def
        map_option_case split: option.splits bind_splits)

theorem Simpson_step_witness:
  "Simpson_value demo 0 func_poly
     \<lparr> x = Finite 1, y = Finite 3, area = Finite 0 \<rparr>
     \<lparr> x = Finite (5 / 2), y = Finite (45 / 2), area = Finite 81 \<rparr>
     \<lparr> x = Finite 4, y = Finite 69, area = Finite 0 \<rparr>
     (Finite (1 / 2 ^ 20)) 0 = Some (Finite 81)"
  unfolding Simpson_step
  by (simp add: Simpson_step_claimed_def Simpson_stop_def evaluate_def func_poly_def
        demo_simps demo_rnd_small fsub_def numeric_interval_def Let_def)

text \<open>
  Claim C1 as stated fails where a new sample is infinite.  On \<open>[0, 1]\<close> \<^verbatim>\<open>func_pole\<close> is
  infinite at the left quarter-point \<open>1/4\<close>: the code returns NaN (line 148), the step as
  claimed returns \<open>L + R + error\<close>, which is \<open>+\<infinity>\<close>.
\<close>

theorem Simpson_step_counterexample:
  "Simpson_value demo 0 func_pole
     \<lparr> x = Finite 0, y = Finite 4, area = Finite 0 \<rparr>
     \<lparr> x = Finite (1 / 2), y = Finite 4, area = Finite (32 / 9) \<rparr>
     \<lparr> x = Finite 1, y = Finite (4 / 3), area = Finite 0 \<rparr>
     (Finite (1 / 2 ^ 20)) 0 = Some NaN
   \<and> Simpson_step_claimed demo 0 func_pole
     \<lparr> x = Finite 0, y = Finite 4, area = Finite 0 \<rparr>
     \<lparr> x = Finite (1 / 2), y = Finite 4, area = Finite (32 / 9) \<rparr>
     \<lparr> x = Finite 1, y = Finite (4 / 3), area = Finite 0 \<rparr>
     (Finite (1 / 2 ^ 20)) 0 = Some PInf"
  by (simp add: Simpson_value_def Simpson_recursive.simps Simpson_step_claimed_def
        evaluate_def func_pole_def demo_simps demo_rnd_small fsub_def numeric_interval_def Let_def)

section \<open>One step of Lobatto\<close>

text \<open>The estimates with the weights written first, as the claims write them.\<close>

lemma area_kronrod_weights:
  "area_kronrod fmt f s e =
     fmul fmt (fdiv fmt (Lobatto_h fmt s e) (Finite 1470))
       (fadd fmt
         (fadd fmt
           (fadd fmt (fmul fmt (Finite 77) (fadd fmt (y s) (y e)))
              (fmul fmt (Finite 432)
                 (fadd fmt (y (Lobatto_p2 fmt f s e)) (y (Lobatto_p6 fmt f s e)))))
           (fmul fmt (Finite 625)
              (fadd fmt (y (Lobatto_p3 fmt f s e)) (y (Lobatto_p5 fmt f s e)))))
         (fmul fmt (Finite 672) (y (Lobatto_p4 fmt f s e))))"
  unfolding area_kronrod_def
  by (simp only: fmul_commute [of fmt "Finite 77"] fmul_commute [of fmt "Finite 432"]
        fmul_commute [of fmt "Finite 625"] fmul_commute [of fmt "Finite 672"])

lemma area_lobatto_weights:
  "area_lobatto fmt f s e =
     fmul fmt (fdiv fmt (Lobatto_h fmt s e) (Finite 6))
       (fadd fmt (fadd fmt (y s) (y e))
          (fmul fmt (Finite 5)
             (fadd fmt (y (Lobatto_p3 fmt f s e)) (y (Lobatto_p5 fmt f s e)))))"
  unfolding area_lobatto_def by (simp only: fmul_commute [of fmt "Finite 5"])

lemma Lobatto_step_claimed_parts:
  "Lobatto_step_claimed fmt md eps f s e d =
     (if flt (fabs (Lobatto_h fmt s e)) numeric_interval \<or> md < d + 1
      then Some (area_kronrod fmt f s e)
      else if flt (fabs (fsub fmt (area_kronrod fmt f s e) (area_lobatto fmt f s e))) eps
      then Some (area_kronrod fmt f s e)
      else do {
        r1 \<leftarrow> Lobatto_value fmt md eps f s (Lobatto_p2 fmt f s e) (d + 1);
        r2 \<leftarrow> Lobatto_value fmt md eps f (Lobatto_p2 fmt f s e) (Lobatto_p3 fmt f s e) (d + 1);
        r3 \<leftarrow> Lobatto_value fmt md eps f (Lobatto_p3 fmt f s e) (Lobatto_p4 fmt f s e) (d + 1);
        r4 \<leftarrow> Lobatto_value fmt md eps f (Lobatto_p4 fmt f s e) (Lobatto_p5 fmt f s e) (d + 1);
        r5 \<leftarrow> Lobatto_value fmt md eps f (Lobatto_p5 fmt f s e) (Lobatto_p6 fmt f s e) (d + 1);
        r6 \<leftarrow> Lobatto_value fmt md eps f (Lobatto_p6 fmt f s e) e (d + 1);
        Some (fadd fmt (fadd fmt (fadd fmt (fadd fmt (fadd fmt r1 r2) r3) r4) r5) r6)
      })"
  unfolding area_kronrod_weights area_lobatto_weights
  unfolding Lobatto_step_claimed_def Lobatto_p2_def Lobatto_p3_def Lobatto_p4_def
    Lobatto_p5_def Lobatto_p6_def Lobatto_h_def Lobatto_mid_def node_kronrod_def
    node_lobatto_def Let_def
  by (rule refl)

lemma Lobatto_value_unfold:
  "Lobatto_value fmt md eps f s e d =
     (if \<not> isfinite (area_kronrod fmt f s e) then Some NaN
      else if flt (fabs (Lobatto_h fmt s e)) numeric_interval \<or> md < d + 1
      then Some (area_kronrod fmt f s e)
      else if flt (fabs (fsub fmt (area_kronrod fmt f s e) (area_lobatto fmt f s e))) eps
      then Some (area_kronrod fmt f s e)
      else do {
        r1 \<leftarrow> Lobatto_value fmt md eps f s (Lobatto_p2 fmt f s e) (d + 1);
        r2 \<leftarrow> Lobatto_value fmt md eps f (Lobatto_p2 fmt f s e) (Lobatto_p3 fmt f s e) (d + 1);
        r3 \<leftarrow> Lobatto_value fmt md eps f (Lobatto_p3 fmt f s e) (Lobatto_p4 fmt f s e) (d + 1);
        r4 \<leftarrow> Lobatto_value fmt md eps f (Lobatto_p4 fmt f s e) (Lobatto_p5 fmt f s e) (d + 1);
        r5 \<leftarrow> Lobatto_value fmt md eps f (Lobatto_p5 fmt f s e) (Lobatto_p6 fmt f s e) (d + 1);
        r6 \<leftarrow> Lobatto_value fmt md eps f (Lobatto_p6 fmt f s e) e (d + 1);
        Some (fadd fmt (fadd fmt (fadd fmt (fadd fmt (fadd fmt r1 r2) r3) r4) r5) r6)
      })"
  unfolding Lobatto_value_def [of fmt md eps f s e d]
  by (subst Lobatto_recursive_unfold)
     (auto simp: Lobatto_value_def split: bind_splits)

text \<open>
  Claim C2, as amended.  A step of the recursion of \<^verbatim>\<open>Lobatto\<close> does what the claim says,
  with one more case, tested first: when the 7-point estimate is not finite, the step
  returns NaN.
\<close>

theorem Lobatto_step:
  "Lobatto_value fmt md eps f s e d =
     (if \<not> isfinite (area_kronrod fmt f s e) then Some NaN
      else Lobatto_step_claimed fmt md eps f s e d)"
  by (subst Lobatto_value_unfold) (simp add: Lobatto_step_claimed_parts)

theorem Lobatto_step_witness:
  "Lobatto_value demo 0 (Finite (1 / 2 ^ 20)) func_poly
     \<lparr> x = Finite 1, y = Finite 3 \<rparr> \<lparr> x = Finite 4, y = Finite 69 \<rparr> 0
   = Some (Finite (3881703765953250226929 / 47922267042241928000))"
  unfolding Lobatto_step
  by (simp add: Lobatto_step_claimed_def area_kronrod_def Lobatto_p2_def Lobatto_p3_def
        Lobatto_p4_def Lobatto_p5_def Lobatto_p6_def Lobatto_h_def Lobatto_mid_def
        node_kronrod_def node_lobatto_def demo_sqrt_def sample_def func_poly_def
        demo_simps demo_rnd_small fsub_def numeric_interval_def Let_def)

text \<open>
  Claim C2 as stated fails where the 7-point estimate is infinite.  On \<open>[0, 1/2]\<close>
  \<^verbatim>\<open>func_pole\<close> is infinite at the midpoint \<open>1/4\<close>, the estimate is \<open>+\<infinity>\<close>, and with the depth
  budget exceeded the step as claimed returns it; the code returns NaN (line 235).
\<close>

theorem Lobatto_step_counterexample:
  "Lobatto_value demo 0 (Finite (1 / 2 ^ 20)) func_pole
     \<lparr> x = Finite 0, y = Finite 4 \<rparr> \<lparr> x = Finite (1 / 2), y = Finite 4 \<rparr> 0 = Some NaN
   \<and> Lobatto_step_claimed demo 0 (Finite (1 / 2 ^ 20)) func_pole
     \<lparr> x = Finite 0, y = Finite 4 \<rparr> \<lparr> x = Finite (1 / 2), y = Finite 4 \<rparr> 0 = Some PInf"
  by (simp add: Lobatto_value_def Lobatto_recursive.simps Lobatto_step_claimed_def
        node_kronrod_def node_lobatto_def demo_sqrt_def sample_def func_pole_def
        demo_simps demo_rnd_small fsub_def numeric_interval_def Let_def)

section \<open>How a step of Lobatto decides failure\<close>

lemma area_kronrod_overflow:
  assumes "\<not> isfinite (fadd fmt (y s) (y e))"
  shows "\<not> isfinite (area_kronrod fmt f s e)"
  using assms unfolding area_kronrod_def
  by (blast dest: isfinite_fmul isfinite_fadd)

text \<open>
  Claim C10.  The 7-point area of a step of \<^verbatim>\<open>Lobatto\<close> is
  \<open>(h / 1470) (77 (y\<^sub>1 + y\<^sub>7) + 432 (y\<^sub>2 + y\<^sub>6) + 625 (y\<^sub>3 + y\<^sub>5) + 672 y\<^sub>4)\<close>.  The step returns NaN
  itself (its log is its own five samples, nothing below it) exactly when that area is not
  finite: the samples are not tested one by one.  And the step can return NaN with every
  sample finite: for a constant integrand whose value \<open>M\<close> is finite while \<open>M + M\<close>
  overflows, the area is not finite and the step returns NaN.
\<close>

theorem Lobatto_failure_test:
  "area_kronrod fmt f s e =
     fmul fmt (fdiv fmt (Lobatto_h fmt s e) (Finite 1470))
       (fadd fmt
         (fadd fmt
           (fadd fmt (fmul fmt (Finite 77) (fadd fmt (y s) (y e)))
              (fmul fmt (Finite 432)
                 (fadd fmt (y (Lobatto_p2 fmt f s e)) (y (Lobatto_p6 fmt f s e)))))
           (fmul fmt (Finite 625)
              (fadd fmt (y (Lobatto_p3 fmt f s e)) (y (Lobatto_p5 fmt f s e)))))
         (fmul fmt (Finite 672) (y (Lobatto_p4 fmt f s e))))
   \<and> (Lobatto_recursive fmt md eps f s e d = Some (NaN, Lobatto_samples fmt f s e)
        \<longleftrightarrow> \<not> isfinite (area_kronrod fmt f s e))
   \<and> (isfinite M \<and> \<not> isfinite (fadd fmt M M) \<longrightarrow>
        Lobatto_recursive fmt md eps (\<lambda>u. M) (sample (\<lambda>u. M) a) (sample (\<lambda>u. M) b) d
          = Some (NaN, Lobatto_samples fmt (\<lambda>u. M) (sample (\<lambda>u. M) a) (sample (\<lambda>u. M) b)))"
proof (intro conjI)
  show "area_kronrod fmt f s e =
     fmul fmt (fdiv fmt (Lobatto_h fmt s e) (Finite 1470))
       (fadd fmt
         (fadd fmt
           (fadd fmt (fmul fmt (Finite 77) (fadd fmt (y s) (y e)))
              (fmul fmt (Finite 432)
                 (fadd fmt (y (Lobatto_p2 fmt f s e)) (y (Lobatto_p6 fmt f s e)))))
           (fmul fmt (Finite 625)
              (fadd fmt (y (Lobatto_p3 fmt f s e)) (y (Lobatto_p5 fmt f s e)))))
         (fmul fmt (Finite 672) (y (Lobatto_p4 fmt f s e))))"
    by (rule area_kronrod_weights)
next
  show "Lobatto_recursive fmt md eps f s e d = Some (NaN, Lobatto_samples fmt f s e)
        \<longleftrightarrow> \<not> isfinite (area_kronrod fmt f s e)"
  proof
    assume run: "Lobatto_recursive fmt md eps f s e d = Some (NaN, Lobatto_samples fmt f s e)"
    show "\<not> isfinite (area_kronrod fmt f s e)"
    proof
      assume fin: "isfinite (area_kronrod fmt f s e)"
      then have "area_kronrod fmt f s e \<noteq> NaN" by auto
      with run fin show False
        by (subst (asm) Lobatto_recursive_unfold) (auto split: if_splits bind_splits)
    qed
  next
    assume "\<not> isfinite (area_kronrod fmt f s e)"
    then show "Lobatto_recursive fmt md eps f s e d = Some (NaN, Lobatto_samples fmt f s e)"
      by (subst Lobatto_recursive_unfold) simp
  qed
next
  show "isfinite M \<and> \<not> isfinite (fadd fmt M M) \<longrightarrow>
        Lobatto_recursive fmt md eps (\<lambda>u. M) (sample (\<lambda>u. M) a) (sample (\<lambda>u. M) b) d
          = Some (NaN, Lobatto_samples fmt (\<lambda>u. M) (sample (\<lambda>u. M) a) (sample (\<lambda>u. M) b))"
  proof
    assume "isfinite M \<and> \<not> isfinite (fadd fmt M M)"
    then have "\<not> isfinite (fadd fmt (y (sample (\<lambda>u. M) a)) (y (sample (\<lambda>u. M) b)))"
      by simp
    then have "\<not> isfinite (area_kronrod fmt (\<lambda>u. M) (sample (\<lambda>u. M) a) (sample (\<lambda>u. M) b))"
      by (rule area_kronrod_overflow)
    then show "Lobatto_recursive fmt md eps (\<lambda>u. M) (sample (\<lambda>u. M) a) (sample (\<lambda>u. M) b) d
          = Some (NaN, Lobatto_samples fmt (\<lambda>u. M) (sample (\<lambda>u. M) a) (sample (\<lambda>u. M) b))"
      by (subst Lobatto_recursive_unfold) simp
  qed
qed

theorem Lobatto_failure_test_witness:
  "isfinite (Finite ldbl_max) \<and> \<not> isfinite (fadd demo (Finite ldbl_max) (Finite ldbl_max))
   \<and> (\<forall>u. isfinite ((\<lambda>u. Finite ldbl_max) u))
   \<and> Lobatto_recursive demo 8 (Finite (1 / 2 ^ 20)) (\<lambda>u. Finite ldbl_max)
        (sample (\<lambda>u. Finite ldbl_max) (Finite 0)) (sample (\<lambda>u. Finite ldbl_max) (Finite 1)) 0
      = Some (NaN, Lobatto_samples demo (\<lambda>u. Finite ldbl_max)
          (sample (\<lambda>u. Finite ldbl_max) (Finite 0)) (sample (\<lambda>u. Finite ldbl_max) (Finite 1)))
   \<and> map_option fst (Lobatto demo (\<lambda>u. Finite ldbl_max) (Finite 0) (Finite 1) (Finite (1 / 2 ^ 20)) 8)
      = Some NaN"
proof -
  have h: "isfinite (Finite ldbl_max)"
    "\<not> isfinite (fadd demo (Finite ldbl_max) (Finite ldbl_max))"
    using ldbl_max_pos by (simp_all add: demo_simps demo_rnd_def)
  from h Lobatto_failure_test [of demo "\<lambda>u. Finite ldbl_max" _ _ 8 "Finite (1 / 2 ^ 20)" 0
      "Finite ldbl_max" "Finite 0" "Finite 1"]
  have run: "Lobatto_recursive demo 8 (Finite (1 / 2 ^ 20)) (\<lambda>u. Finite ldbl_max)
        (sample (\<lambda>u. Finite ldbl_max) (Finite 0)) (sample (\<lambda>u. Finite ldbl_max) (Finite 1)) 0
      = Some (NaN, Lobatto_samples demo (\<lambda>u. Finite ldbl_max)
          (sample (\<lambda>u. Finite ldbl_max) (Finite 0)) (sample (\<lambda>u. Finite ldbl_max) (Finite 1)))"
    by blast
  then have "map_option fst (Lobatto demo (\<lambda>u. Finite ldbl_max) (Finite 0) (Finite 1)
       (Finite (1 / 2 ^ 20)) 8) = Some NaN"
    by (simp add: Lobatto_unfold Let_def fmax_def demo_simps)
  with h run show ?thesis by simp
qed

section \<open>The acceptance test of Simpson\<close>

text \<open>
  Claim C9, as amended.  The tolerance of \<^verbatim>\<open>Simpson\<close> bounds an absolute error.  A step
  that is not stopped by the tolerance or the width, whose two new samples are finite and
  whose depth budget is not used up, stops subdividing (returns with only its own two
  samples in the log) exactly when the absolute value of the error estimate
  \<open>(L + R - M) / 15\<close> is below the tolerance of that step; the estimate is not divided by
  \<open>L + R\<close>.
\<close>

theorem Simpson_acceptance_test:
  "\<not> Simpson_stop fmt s e eps \<and> isfinite (y (evaluate fmt f s m))
     \<and> isfinite (y (evaluate fmt f m e)) \<and> \<not> md < d + 1 \<longrightarrow>
     ((\<exists>v. Simpson_recursive fmt md f s m e eps d
            = Some (v, [Eval (x (evaluate fmt f s m)), Eval (x (evaluate fmt f m e))]))
      \<longleftrightarrow> flt (fabs (fdiv fmt
             (fsub fmt (fadd fmt (area (evaluate fmt f s m)) (area (evaluate fmt f m e)))
                (area m))
             (Finite 15))) eps)"
proof (intro impI, elim conjE)
  let ?L = "evaluate fmt f s m" and ?R = "evaluate fmt f m e"
  assume a: "\<not> Simpson_stop fmt s e eps" "isfinite (y ?L)" "isfinite (y ?R)" "\<not> md < d + 1"
  have err: "fdiv fmt (fsub fmt (fadd fmt (area ?L) (area ?R)) (area m)) (Finite 15)
      = Simpson_error fmt ?L ?R m"
    by (simp add: Simpson_error_def)
  show "(\<exists>v. Simpson_recursive fmt md f s m e eps d = Some (v, [Eval (x ?L), Eval (x ?R)]))
      \<longleftrightarrow> flt (fabs (fdiv fmt (fsub fmt (fadd fmt (area ?L) (area ?R)) (area m))
             (Finite 15))) eps"
    unfolding err
  proof
    assume "\<exists>v. Simpson_recursive fmt md f s m e eps d = Some (v, [Eval (x ?L), Eval (x ?R)])"
    then obtain v where
      run: "Simpson_recursive fmt md f s m e eps d = Some (v, [Eval (x ?L), Eval (x ?R)])" ..
    show "flt (fabs (Simpson_error fmt ?L ?R m)) eps"
    proof (rule ccontr)
      assume "\<not> flt (fabs (Simpson_error fmt ?L ?R m)) eps"
      with run a show False
        by (subst (asm) Simpson_recursive_unfold) (auto simp: Let_def split: bind_splits)
    qed
  next
    assume "flt (fabs (Simpson_error fmt ?L ?R m)) eps"
    with a show "\<exists>v. Simpson_recursive fmt md f s m e eps d
        = Some (v, [Eval (x ?L), Eval (x ?R)])"
      by (subst Simpson_recursive_unfold) (simp add: Let_def)
  qed
qed

lemma pole_step:
  "evaluate demo func_pole \<lparr> x = Finite 1, y = Finite (4 / 3), area = Finite 0 \<rparr>
     \<lparr> x = Finite (3 / 2), y = Finite (4 / 5), area = Finite (268 / 315) \<rparr>
   = \<lparr> x = Finite (5 / 4), y = Finite 1, area = Finite (23 / 45) \<rparr>"
  "evaluate demo func_pole \<lparr> x = Finite (3 / 2), y = Finite (4 / 5), area = Finite (268 / 315) \<rparr>
     \<lparr> x = Finite 2, y = Finite (4 / 7), area = Finite 0 \<rparr>
   = \<lparr> x = Finite (7 / 4), y = Finite (2 / 3), area = Finite (106 / 315) \<rparr>"
  by (simp_all add: evaluate_def func_pole_def demo_simps demo_rnd_small fsub_def Let_def)

theorem Simpson_acceptance_test_witness:
  "\<not> Simpson_stop demo \<lparr> x = Finite 1, y = Finite (4 / 3), area = Finite 0 \<rparr>
        \<lparr> x = Finite 2, y = Finite (4 / 7), area = Finite 0 \<rparr> (Finite (1 / 4500))
   \<and> \<not> (8 :: 8 word) < 0 + 1
   \<and> flt (fabs (fdiv demo (fsub demo (fadd demo (Finite (23 / 45)) (Finite (106 / 315)))
         (Finite (268 / 315))) (Finite 15))) (Finite (1 / 4500))
   \<and> (\<exists>v. Simpson_recursive demo 8 func_pole
          \<lparr> x = Finite 1, y = Finite (4 / 3), area = Finite 0 \<rparr>
          \<lparr> x = Finite (3 / 2), y = Finite (4 / 5), area = Finite (268 / 315) \<rparr>
          \<lparr> x = Finite 2, y = Finite (4 / 7), area = Finite 0 \<rparr> (Finite (1 / 4500)) 0
        = Some (v, [Eval (Finite (5 / 4)), Eval (Finite (7 / 4))]))"
proof -
  have stop: "\<not> Simpson_stop demo \<lparr> x = Finite 1, y = Finite (4 / 3), area = Finite 0 \<rparr>
        \<lparr> x = Finite 2, y = Finite (4 / 7), area = Finite 0 \<rparr> (Finite (1 / 4500))"
    by (simp add: Simpson_stop_def demo_simps demo_rnd_small fsub_def numeric_interval_def)
  have depth: "\<not> (8 :: 8 word) < 0 + 1" by simp
  have err: "flt (fabs (fdiv demo (fsub demo (fadd demo (Finite (23 / 45)) (Finite (106 / 315)))
         (Finite (268 / 315))) (Finite 15))) (Finite (1 / 4500))"
    by (simp add: demo_simps demo_rnd_small fsub_def)
  from stop depth err
    Simpson_acceptance_test [of demo
      "\<lparr> x = Finite 1, y = Finite (4 / 3), area = Finite 0 \<rparr>"
      "\<lparr> x = Finite 2, y = Finite (4 / 7), area = Finite 0 \<rparr>" "Finite (1 / 4500)" func_pole
      "\<lparr> x = Finite (3 / 2), y = Finite (4 / 5), area = Finite (268 / 315) \<rparr>" 8 0]
  show ?thesis by (simp add: pole_step)
qed

text \<open>
  Claim C9 as stated has the error taken relative to the estimate.  For \<^verbatim>\<open>func_pole\<close> on
  \<open>[1, 2]\<close> with tolerance \<open>1/4500\<close> the error estimate is \<open>-1/4725\<close> and, relative to
  \<open>L + R = 89/105\<close>, \<open>-1/4005\<close>: the relative test does not accept, the code does, at depth
  0 of 8, and \<^verbatim>\<open>Simpson\<close> returns \<open>572/675\<close> after this one step.  (The relative test that
  the code keeps in a comment, lines 150-154, divides \<open>L + R - M\<close> by \<open>L + R\<close> without the
  15 and is fifteen times further from accepting.)
\<close>

theorem relative_error_counterexample:
  "Simpson_recursive demo 8 func_pole
      \<lparr> x = Finite 1, y = Finite (4 / 3), area = Finite 0 \<rparr>
      \<lparr> x = Finite (3 / 2), y = Finite (4 / 5), area = Finite (268 / 315) \<rparr>
      \<lparr> x = Finite 2, y = Finite (4 / 7), area = Finite 0 \<rparr> (Finite (1 / 4500)) 0
    = Some (Finite (572 / 675), [Eval (Finite (5 / 4)), Eval (Finite (7 / 4))])
   \<and> \<not> (8 :: 8 word) < 0 + 1
   \<and> \<not> Simpson_accepts_relative demo
        \<lparr> x = Finite (5 / 4), y = Finite 1, area = Finite (23 / 45) \<rparr>
        \<lparr> x = Finite (7 / 4), y = Finite (2 / 3), area = Finite (106 / 315) \<rparr>
        \<lparr> x = Finite (3 / 2), y = Finite (4 / 5), area = Finite (268 / 315) \<rparr>
        (Finite (1 / 4500))
   \<and> map_option fst (Simpson demo func_pole (Finite 1) (Finite 2) (Finite (1 / 4500)) 8)
       = Some (Finite (572 / 675))"
proof -
  have "Simpson_recursive demo 8 func_pole
      \<lparr> x = Finite 1, y = Finite (4 / 3), area = Finite 0 \<rparr>
      \<lparr> x = Finite (3 / 2), y = Finite (4 / 5), area = Finite (268 / 315) \<rparr>
      \<lparr> x = Finite 2, y = Finite (4 / 7), area = Finite 0 \<rparr> (Finite (1 / 4500)) 0
    = Some (Finite (572 / 675), [Eval (Finite (5 / 4)), Eval (Finite (7 / 4))])"
    by (subst Simpson_recursive_unfold)
       (simp add: pole_step Simpson_stop_def Simpson_error_def Simpson_fine_def
          demo_simps demo_rnd_small fsub_def numeric_interval_def)
  moreover have "\<not> Simpson_accepts_relative demo
        \<lparr> x = Finite (5 / 4), y = Finite 1, area = Finite (23 / 45) \<rparr>
        \<lparr> x = Finite (7 / 4), y = Finite (2 / 3), area = Finite (106 / 315) \<rparr>
        \<lparr> x = Finite (3 / 2), y = Finite (4 / 5), area = Finite (268 / 315) \<rparr>
        (Finite (1 / 4500))"
    by (simp add: Simpson_accepts_relative_def Simpson_error_def demo_simps demo_rnd_small fsub_def)
  moreover have "map_option fst (Simpson demo func_pole (Finite 1) (Finite 2) (Finite (1 / 4500)) 8)
       = Some (Finite (572 / 675))"
    by (simp add: Simpson_def evaluate_def Simpson_recursive.simps func_pole_def
          demo_simps demo_rnd_small fsub_def fmax_def numeric_interval_def Let_def)
  ultimately show ?thesis by simp
qed

section \<open>The degenerate interval\<close>

lemma degenerate_midpoint:
  assumes "representable fmt p" "representable fmt (2 * p)"
  shows "fdiv fmt (fadd fmt (Finite p) (Finite p)) (Finite 2) = Finite p"
proof (cases "p = 0")
  case True
  then show ?thesis by simp
next
  case False
  have "p + p = 2 * p" by simp
  with False assms show ?thesis by (simp add: representable_def)
qed

lemma degenerate_width: "fsub fmt (Finite p) (Finite p) = Finite 0"
  by (simp add: fsub_def)

lemma degenerate_evaluate:
  assumes "representable fmt p" "representable fmt (2 * p)"
  shows "evaluate fmt f \<lparr> x = Finite p, y = v, area = Finite 0 \<rparr>
           \<lparr> x = Finite p, y = v, area = Finite 0 \<rparr>
         = \<lparr> x = Finite p, y = f (Finite p),
             area = fdiv fmt (fmul fmt (Finite 0)
                      (fadd fmt (fadd fmt v (fmul fmt (Finite 4) (f (Finite p)))) v))
                      (Finite 6) \<rparr>"
  unfolding evaluate_def Let_def Data.simps degenerate_midpoint [OF assms] degenerate_width
  by simp

lemma degenerate_stop:
  assumes "fsub fmt u u = Finite 0"
  shows "Simpson_recursive fmt md f \<lparr> x = u, y = v, area = Finite 0 \<rparr> m
     \<lparr> x = u, y = v, area = Finite 0 \<rparr> ep d = Some (area m, [])"
  by (subst Simpson_recursive_unfold) (simp add: Simpson_stop_def assms numeric_interval_def)

lemma degenerate_Simpson:
  assumes p: "representable fmt p" "representable fmt (2 * p)"
    and v: "isfinite (f (Finite p))"
  shows "map_option fst (Simpson fmt f (Finite p) (Finite p) eps md)
     = Some (fdiv fmt (fmul fmt (Finite 0) (three_point_sum fmt (f (Finite p)))) (Finite 6))"
  using v
  by (simp add: Simpson_unfold Let_def degenerate_evaluate [OF p] degenerate_stop
        degenerate_width three_point_sum_def)

lemma degenerate_Simpson_negative_zero:
  assumes v: "isfinite (f NZero)"
  shows "map_option fst (Simpson fmt f NZero NZero eps md)
     = Some (fdiv fmt (fmul fmt (Finite 0) (three_point_sum fmt (f NZero))) (Finite 6))"
proof -
  have w: "fsub fmt NZero NZero = Finite 0" by (simp add: fsub_def)
  have m: "evaluate fmt f \<lparr> x = NZero, y = v, area = Finite 0 \<rparr>
             \<lparr> x = NZero, y = v, area = Finite 0 \<rparr>
         = \<lparr> x = NZero, y = f NZero,
             area = fdiv fmt (fmul fmt (Finite 0) (three_point_sum fmt (f NZero))) (Finite 6) \<rparr>"
    if "v = f NZero" for v
    by (simp add: evaluate_def Let_def w three_point_sum_def that)
  show ?thesis
    using v by (simp add: Simpson_unfold Let_def m degenerate_stop w)
qed

lemma degenerate_points:
  assumes p: "representable fmt p" "representable fmt (2 * p)"
    and n: "isfinite (node_lobatto fmt)" "isfinite (node_kronrod fmt)"
  shows "Lobatto_h fmt (sample f (Finite p)) (sample f (Finite p)) = Finite 0"
    and "Lobatto_p2 fmt f (sample f (Finite p)) (sample f (Finite p)) = sample f (Finite p)"
    and "Lobatto_p3 fmt f (sample f (Finite p)) (sample f (Finite p)) = sample f (Finite p)"
    and "Lobatto_p4 fmt f (sample f (Finite p)) (sample f (Finite p)) = sample f (Finite p)"
    and "Lobatto_p5 fmt f (sample f (Finite p)) (sample f (Finite p)) = sample f (Finite p)"
    and "Lobatto_p6 fmt f (sample f (Finite p)) (sample f (Finite p)) = sample f (Finite p)"
proof -
  let ?a = "Finite p"
  let ?s = "sample f ?a"
  show h: "Lobatto_h fmt ?s ?s = Finite 0"
    by (simp add: Lobatto_h_def degenerate_width)
  have mid: "Lobatto_mid fmt ?s ?s = ?a"
    unfolding Lobatto_mid_def sample_simps by (rule degenerate_midpoint [OF p])
  have same: "fadd fmt ?a (zero k) = ?a" for k
    using p(1) by (cases k) (simp_all add: representable_def)
  have off: "fsub fmt ?a (fmul fmt u (Finite 0)) = ?a \<and> fadd fmt ?a (fmul fmt u (Finite 0)) = ?a"
    if "isfinite u" for u
  proof -
    have "fmul fmt u (Finite 0) = zero (signbit u)"
      using that by (simp add: fmul_commute [of fmt u] fmul_zero_finite)
    moreover have "fneg (zero k) = zero (\<not> k)" for k
      by (cases k) simp_all
    ultimately show ?thesis by (simp add: fsub_def same)
  qed
  show "Lobatto_p2 fmt f ?s ?s = ?s" "Lobatto_p3 fmt f ?s ?s = ?s" "Lobatto_p4 fmt f ?s ?s = ?s"
    "Lobatto_p5 fmt f ?s ?s = ?s" "Lobatto_p6 fmt f ?s ?s = ?s"
    by (simp_all add: Lobatto_p2_def Lobatto_p3_def Lobatto_p4_def Lobatto_p5_def Lobatto_p6_def
          h mid off [OF n(1)] off [OF n(2)])
qed

lemma degenerate_kronrod:
  assumes p: "representable fmt p" "representable fmt (2 * p)"
    and n: "isfinite (node_lobatto fmt)" "isfinite (node_kronrod fmt)"
  shows "area_kronrod fmt f (sample f (Finite p)) (sample f (Finite p))
     = fmul fmt (Finite 0) (seven_point_sum fmt (f (Finite p)))"
  by (simp add: area_kronrod_def degenerate_points [OF p n] seven_point_sum_def)

lemma degenerate_Lobatto:
  assumes p: "representable fmt p" "representable fmt (2 * p)"
    and n: "isfinite (node_lobatto fmt)" "isfinite (node_kronrod fmt)"
    and v: "isfinite (f (Finite p))"
  shows "map_option fst (Lobatto fmt f (Finite p) (Finite p) eps md)
     = Some (fmul fmt (Finite 0) (seven_point_sum fmt (f (Finite p))))"
proof -
  let ?s = "sample f (Finite p)"
  let ?w = "seven_point_sum fmt (f (Finite p))"
  have "Lobatto_recursive fmt (min md 8) ep f ?s ?s 0
      = Some (fmul fmt (Finite 0) ?w, Lobatto_samples fmt f ?s ?s)" for ep
  proof (cases "isfinite ?w")
    case True
    then show ?thesis
      by (subst Lobatto_recursive_unfold)
        (simp add: degenerate_kronrod [OF p n] degenerate_points [OF p n] fmul_zero_finite
           numeric_interval_def)
  next
    case False
    then show ?thesis
      by (subst Lobatto_recursive_unfold)
        (simp add: degenerate_kronrod [OF p n] fmul_zero_nonfinite)
  qed
  then show ?thesis
    using v by (simp add: Lobatto_unfold Let_def)
qed

text \<open>
  Claim C8, as amended.  Let \<open>a\<close> be a finite value that the format holds, other than
  \<^verbatim>\<open>-0.0\<close>, with \<open>a + a\<close> held too (no overflow), let \<open>b\<close> be the same value, and let the
  integrand be finite at \<open>a\<close>.  Then \<^verbatim>\<open>Simpson\<close> on \<open>[a, a]\<close> returns a zero provided the
  sum \<open>f(a) + 4 f(a) + f(a)\<close> does not overflow, and \<^verbatim>\<open>Lobatto\<close> returns a zero provided its
  two nodes are finite and its weighted sum of seven samples \<open>f(a)\<close> does not overflow.
  The zero has the sign of that sum: it is \<^verbatim>\<open>-0.0\<close> where the sum is negative.  At
  \<open>a = b =\<close> \<^verbatim>\<open>-0.0\<close> the same holds of \<^verbatim>\<open>Simpson\<close>.
\<close>

theorem degenerate_interval:
  "(representable fmt p \<and> representable fmt (2 * p) \<and> isfinite (f (Finite p)) \<longrightarrow>
     (isfinite (three_point_sum fmt (f (Finite p))) \<longrightarrow>
        map_option fst (Simpson fmt f (Finite p) (Finite p) eps md)
          = Some (zero (signbit (three_point_sum fmt (f (Finite p))))))
     \<and> (isfinite (node_lobatto fmt) \<and> isfinite (node_kronrod fmt)
          \<and> isfinite (seven_point_sum fmt (f (Finite p))) \<longrightarrow>
        map_option fst (Lobatto fmt f (Finite p) (Finite p) eps md)
          = Some (zero (signbit (seven_point_sum fmt (f (Finite p)))))))
   \<and> (isfinite (f NZero) \<and> isfinite (three_point_sum fmt (f NZero)) \<longrightarrow>
        map_option fst (Simpson fmt f NZero NZero eps md)
          = Some (zero (signbit (three_point_sum fmt (f NZero)))))"
  by (simp add: degenerate_Simpson degenerate_Lobatto degenerate_Simpson_negative_zero
        fmul_zero_finite fdiv_zero_const)

theorem degenerate_interval_witness:
  "representable demo 1 \<and> representable demo (2 * 1)
   \<and> isfinite (func_poly (Finite 1))
   \<and> isfinite (three_point_sum demo (func_poly (Finite 1)))
   \<and> isfinite (node_lobatto demo) \<and> isfinite (node_kronrod demo)
   \<and> isfinite (seven_point_sum demo (func_poly (Finite 1)))
   \<and> isfinite (func_poly NZero)
   \<and> isfinite (three_point_sum demo (func_poly NZero))
   \<and> map_option fst (Simpson demo func_poly (Finite 1) (Finite 1) (Finite (1 / 2 ^ 20)) 8)
       = Some (Finite 0)
   \<and> map_option fst (Lobatto demo func_poly (Finite 1) (Finite 1) (Finite (1 / 2 ^ 20)) 8)
       = Some (Finite 0)
   \<and> map_option fst (Simpson demo func_poly NZero NZero (Finite (1 / 2 ^ 20)) 8)
       = Some (Finite 0)"
proof -
  have r: "representable demo 1" "representable demo (2 * 1)"
    by (simp_all add: representable_demo)
  have v: "func_poly (Finite 1) = Finite 3" "func_poly NZero = Finite 5"
    by (simp_all add: func_poly_def demo_simps demo_rnd_small fsub_def)
  have s: "three_point_sum demo (Finite 3) = Finite 18"
    "seven_point_sum demo (Finite 3) = Finite 8820"
    "three_point_sum demo (Finite 5) = Finite 30"
    by (simp_all add: three_point_sum_def seven_point_sum_def demo_simps demo_rnd_small)
  have n: "isfinite (node_lobatto demo)" "isfinite (node_kronrod demo)"
    by (simp_all add: node_kronrod_def node_lobatto_def demo_sqrt_def demo_simps demo_rnd_small)
  from r n
    degenerate_interval [of demo 1 func_poly "Finite (1 / 2 ^ 20)" 8]
  show ?thesis by (simp add: v s)
qed

text \<open>
  Where the weighted sum overflows the result is NaN, in every format: the area is the
  width \<open>0\<close> times an infinity.
\<close>

lemma degenerate_overflow_Simpson:
  assumes p: "representable fmt p" "representable fmt (2 * p)"
    and v: "isfinite (f (Finite p))" "\<not> isfinite (three_point_sum fmt (f (Finite p)))"
  shows "map_option fst (Simpson fmt f (Finite p) (Finite p) eps md) = Some NaN"
  using v by (simp add: degenerate_Simpson [of fmt p f, OF p] fmul_zero_nonfinite)

lemma degenerate_overflow_Lobatto:
  assumes p: "representable fmt p" "representable fmt (2 * p)"
    and n: "isfinite (node_lobatto fmt)" "isfinite (node_kronrod fmt)"
    and v: "isfinite (f (Finite p))" "\<not> isfinite (seven_point_sum fmt (f (Finite p)))"
  shows "map_option fst (Lobatto fmt f (Finite p) (Finite p) eps md) = Some NaN"
  using v by (simp add: degenerate_Lobatto [of fmt p f, OF p n] fmul_zero_nonfinite)

text \<open>
  Claim C8 as stated asks only that the integrand be finite at \<open>a\<close>.  The constant
  integrand \<^verbatim>\<open>LDBL_MAX\<close>, the largest finite value, is finite everywhere, and at
  \<open>a = b = 0\<close> both integrators return NaN: in \<^verbatim>\<open>Simpson\<close> the product \<open>4 f(a)\<close> overflows,
  in \<^verbatim>\<open>Lobatto\<close> the sum \<open>f(a) + f(b)\<close>, and the width \<open>0\<close> times an infinity is NaN.
\<close>

theorem degenerate_interval_counterexample:
  "isfinite ((\<lambda>u. Finite ldbl_max) (Finite 0))
   \<and> map_option fst (Simpson demo (\<lambda>u. Finite ldbl_max) (Finite 0) (Finite 0)
         (Finite (1 / 2 ^ 20)) 8) = Some NaN
   \<and> map_option fst (Lobatto demo (\<lambda>u. Finite ldbl_max) (Finite 0) (Finite 0)
         (Finite (1 / 2 ^ 20)) 8) = Some NaN"
proof -
  have r: "representable demo 0" "representable demo (2 * 0)"
    by (simp_all add: representable_demo)
  have n: "isfinite (node_lobatto demo)" "isfinite (node_kronrod demo)"
    by (simp_all add: node_kronrod_def node_lobatto_def demo_sqrt_def demo_simps demo_rnd_small)
  have s: "\<not> isfinite (three_point_sum demo (Finite ldbl_max))"
    "\<not> isfinite (seven_point_sum demo (Finite ldbl_max))"
    by (simp_all add: three_point_sum_max seven_point_sum_max)
  show ?thesis
    using degenerate_overflow_Simpson [of demo 0 "\<lambda>u. Finite ldbl_max", OF r] s
      degenerate_overflow_Lobatto [of demo 0 "\<lambda>u. Finite ldbl_max", OF r n]
    by simp
qed

text \<open>
  At \<open>a = b =\<close> \<^verbatim>\<open>-0.0\<close> the half-width of \<^verbatim>\<open>Lobatto\<close> is \<^verbatim>\<open>+0.0\<close>, and the two nodes right
  of the midpoint are \<^verbatim>\<open>-0.0 + 0.0\<close>, which is \<^verbatim>\<open>+0.0\<close>: the integrand is sampled at both
  zeros.  With \<^verbatim>\<open>std::signbit(x) ? 0 : LDBL_MAX\<close>, which is \<open>0\<close> at \<open>a\<close>, the result is NaN.
\<close>

lemma degenerate_negative_zero_Lobatto:
  "isfinite (func_step NZero) \<and> isfinite (seven_point_sum demo (func_step NZero))
   \<and> map_option fst (Lobatto demo func_step NZero NZero (Finite (1 / 2 ^ 20)) 8) = Some NaN"
  using ldbl_max_ge
  by (simp add: Lobatto_def Lobatto_recursive.simps func_step_def seven_point_sum_def
        node_kronrod_def node_lobatto_def demo_sqrt_def
        demo_simps demo_rnd_def fsub_def fmax_def numeric_interval_def Let_def)

end
